(* ===== verification/Prelude.thy ===== *)
theory Prelude
  imports Main "HOL-Library.Multiset"
begin

text \<open>
  Shared vocabulary of the diffkv development (\<open>src/diffkv.c\<close>): the types that name
  C buffers and C strings, the model of the C library functions the program calls
  (\<open>isspace\<close> in the C locale, the NUL terminator, reading a buffer as a C string),
  the undefined-behaviour faults a pointer access can run into, and the program's
  error values. Every operation of the program that can fail returns one of these as
  the \<open>Inl\<close> branch of a sum. Generic lemmas on these notions are collected in
  \<open>cstr_simps\<close> and are simplification rules.
\<close>

section \<open>Bytes, buffers and C strings\<close>

text \<open>
  A heap buffer is the list of its bytes (an Isabelle \<open>char\<close> is one byte). A C string
  is what a \<open>char *\<close> denotes when read up to its terminator: a byte list without NUL.
\<close>

type_synonym cbuf = "char list"
type_synonym cstring = "char list"

abbreviation NUL :: char where
  "NUL \<equiv> CHR 0x00"

abbreviation NL :: char where
  "NL \<equiv> CHR 0x0A"

text \<open>\<open>isspace\<close> of \<open><ctype.h>\<close> in the C locale: space, \<open>\t \n \v \f \r\<close>.\<close>

definition isspace :: "char \<Rightarrow> bool" where
  "isspace c \<longleftrightarrow> c = CHR '' '' \<or> c = CHR 0x09 \<or> c = CHR 0x0A \<or> c = CHR 0x0B
     \<or> c = CHR 0x0C \<or> c = CHR 0x0D"

text \<open>The C string a buffer holds: its bytes up to the first NUL.\<close>

definition cstr :: "cbuf \<Rightarrow> cstring" where
  "cstr b = takeWhile (\<lambda>c. c \<noteq> NUL) b"

text \<open>Removing trailing whitespace, the list-level reading of a backwards scan.\<close>

definition rtrim :: "char list \<Rightarrow> char list" where
  "rtrim xs = rev (dropWhile isspace (rev xs))"

section \<open>Faults and errors\<close>

text \<open>
  A \<open>fault\<close> is an access the C standard leaves undefined: reading through a NULL
  pointer, past either end of a heap block, or through the sentinel pointer
  \<open>KV_IGNORE = (struct kv * ) 1\<close>.
\<close>

datatype fault = Null_deref | Heap_overread | Heap_underread | Bad_pointer

text \<open>
  The program's errors: the three fatal diagnostics of \<open>src/diffkv.c\<close> (a line without
  \<open>=\<close>, a read error, a file that cannot be opened; each ends in \<open>exit(1)\<close>) and
  undefined behaviour met while loading a file.
\<close>

datatype error =
    Missing_eq cstring
  | Read_error string
  | Open_error string string
  | Undefined fault

text \<open>Continuing after a pointer scan that may fault: a fault becomes an error.\<close>

fun scan_then :: "fault + 'a \<Rightarrow> ('a \<Rightarrow> error + 'b) \<Rightarrow> error + 'b" where
  "scan_then (Inl f) g = Inl (Undefined f)"
| "scan_then (Inr x) g = g x"

named_theorems cstr_simps "rules about C strings and whitespace"

section \<open>Lemmas\<close>

lemma isspace_NUL [simp, cstr_simps]: "\<not> isspace NUL"
  by (simp add: isspace_def)

lemma isspace_eq [simp, cstr_simps]: "\<not> isspace CHR ''=''"
  by (simp add: isspace_def)

lemma isspace_hash [simp, cstr_simps]: "\<not> isspace CHR ''#''"
  by (simp add: isspace_def)

lemma isspace_NL [simp, cstr_simps]: "isspace NL"
  by (simp add: isspace_def)

lemma cstr_Nil [simp, cstr_simps]: "cstr [] = []"
  by (simp add: cstr_def)

lemma cstr_Cons [simp, cstr_simps]: "cstr (c # cs) = (if c = NUL then [] else c # cstr cs)"
  by (simp add: cstr_def)

lemma cstr_no_NUL [simp, cstr_simps]: "NUL \<notin> set xs \<Longrightarrow> cstr xs = xs"
  by (induction xs) auto

lemma cstr_append_NUL [simp, cstr_simps]: "NUL \<notin> set xs \<Longrightarrow> cstr (xs @ NUL # ys) = xs"
  by (induction xs) auto

lemma NUL_notin_cstr [simp, cstr_simps]: "NUL \<notin> set (cstr b)"
  by (induction b) auto

lemma cstr_prefix: "cstr b @ drop (length (cstr b)) b = b"
  by (induction b) auto

lemma rtrim_Nil [simp]: "rtrim [] = []"
  by (simp add: rtrim_def)

lemma rtrim_append_spaces [cstr_simps]:
  "\<forall>c\<in>set ws. isspace c \<Longrightarrow> rtrim (xs @ ws) = rtrim xs"
  by (simp add: rtrim_def dropWhile_append)

lemma rtrim_no_trailing [cstr_simps]:
  "xs = [] \<or> \<not> isspace (last xs) \<Longrightarrow> rtrim xs = xs"
  by (cases xs rule: rev_cases) (auto simp: rtrim_def)

lemma rtrim_last: "rtrim xs \<noteq> [] \<Longrightarrow> \<not> isspace (last (rtrim xs))"
  by (simp add: rtrim_def last_rev hd_dropWhile)

lemma set_rtrim: "set (rtrim xs) \<subseteq> set xs"
  by (auto simp: rtrim_def dest: set_dropWhileD)

lemma rtrim_hd: "xs \<noteq> [] \<Longrightarrow> \<not> isspace (hd xs) \<Longrightarrow> rtrim xs \<noteq> [] \<and> hd (rtrim xs) = hd xs"
proof -
  assume ne: "xs \<noteq> []" and h: "\<not> isspace (hd xs)"
  have "\<exists>c\<in>set (rev xs). \<not> isspace c" using ne h by (cases xs) auto
  then have nz: "dropWhile isspace (rev xs) \<noteq> []" by simp
  have "rev xs = takeWhile isspace (rev xs) @ dropWhile isspace (rev xs)" by simp
  then have "last (dropWhile isspace (rev xs)) = last (rev xs)"
    by (metis last_appendR nz)
  with nz ne show ?thesis
    by (simp add: rtrim_def hd_rev last_rev)
qed

lemma dropWhile_all_spaces [cstr_simps]:
  "\<forall>c\<in>set ws. isspace c \<Longrightarrow> dropWhile isspace (ws @ xs) = dropWhile isspace xs"
  by (induction ws) auto

lemma dropWhile_eq_ConsD [cstr_simps]: "dropWhile P xs = y # ys \<Longrightarrow> y \<in> set xs \<and> \<not> P y"
  by (metis dropWhile_eq_Cons_conv in_set_conv_decomp)

lemma drop_nth_eq:
  "drop i b = zs \<Longrightarrow> k < length zs \<Longrightarrow> i + k < length b \<and> b ! (i + k) = zs ! k"
proof -
  assume d: "drop i b = zs" and k: "k < length zs"
  from d k have ik: "i + k < length b" by (metis length_drop less_diff_conv add.commute)
  then have "i \<le> length b" by simp
  with d ik show ?thesis by (auto simp: nth_drop[symmetric])
qed

lemma cstr_update_at: "NUL \<notin> set xs \<Longrightarrow> ys \<noteq> [] \<Longrightarrow> cstr ((xs @ ys)[length xs := NUL]) = xs"
  by (cases ys) (simp_all add: list_update_append)

lemma cstr_update_after:
  "NUL \<notin> set xs \<Longrightarrow> length xs < j \<Longrightarrow> cstr ((xs @ NUL # ys)[j := z]) = xs"
  by (simp add: list_update_append split: nat.split)

lemma rtrim_split: "\<exists>ws. xs = rtrim xs @ ws \<and> (\<forall>c\<in>set ws. isspace c)"
proof -
  have "rev xs = takeWhile isspace (rev xs) @ dropWhile isspace (rev xs)" by simp
  then have "xs = rtrim xs @ rev (takeWhile isspace (rev xs))"
    by (metis rev_append rev_rev_ident rtrim_def)
  moreover have "\<forall>c\<in>set (rev (takeWhile isspace (rev xs))). isspace c"
    by (auto dest: set_takeWhileD)
  ultimately show ?thesis by blast
qed

lemma split_at_first:
  "x \<in> set xs \<Longrightarrow> xs = takeWhile (\<lambda>c. c \<noteq> x) xs @ x # tl (dropWhile (\<lambda>c. c \<noteq> x) xs)"
  by (induction xs) auto

lemma dropWhile_spaces_Nil: "\<forall>c\<in>set ws. isspace c \<Longrightarrow> dropWhile isspace ws = []"
  by (induction ws) auto

lemma in_tl_dropWhile: "x \<in> set (tl (dropWhile P xs)) \<Longrightarrow> x \<in> set xs"
  by (induction xs) (auto split: if_splits dest: list.set_sel(2))

lemma in_dropWhile: "x \<in> set xs \<Longrightarrow> \<not> P x \<Longrightarrow> x \<in> set (dropWhile P xs)"
  by (induction xs) auto

end
