(* ===== verification/Reader.thy ===== *)
theory Reader
  imports Prelude
begin

text \<open>
  The line reader of \<open>src/diffkv.c\<close>: \<open>getln\<close> (lines 21--47) reads bytes with
  \<open>fgetc\<close> up to a newline or the end of input. A \<open>FILE\<close> is modelled as the bytes the
  underlying file or device will still deliver, its end-of-file and error indicators,
  and what the device reports once its bytes run out (\<open>None\<close>: end of file; \<open>Some r\<close>:
  a read error with reason \<open>r\<close>). \<open>fgetc\<close> follows C99 7.19.7.1: once the end-of-file
  indicator is set it returns \<open>EOF\<close> without reading, which matters when the standard
  input is read twice.
\<close>

record stream =
  data :: "char list"
  eof_flag :: bool
  err_flag :: bool
  rd_fail :: "string option"

text \<open>\<open>fgetc\<close>: \<open>None\<close> is the value \<open>EOF\<close>.\<close>

definition fgetc :: "stream \<Rightarrow> char option \<times> stream" where
  "fgetc s =
     (if eof_flag s then (None, s)
      else case data s of
        [] \<Rightarrow> (case rd_fail s of
                 None \<Rightarrow> (None, s\<lparr>eof_flag := True\<rparr>)
               | Some _ \<Rightarrow> (None, s\<lparr>err_flag := True\<rparr>))
      | c # cs \<Rightarrow> (Some c, s\<lparr>data := cs\<rparr>))"

text \<open>
  The \<open>for (;;)\<close> loop of \<open>getln\<close> (lines 27--37): \<open>acc\<close> is the buffer \<open>ln\<close> of
  \<open>sz\<close> bytes, grown by one byte per character read. The allocation failure of
  \<open>realloc\<close> (\<open>_Exit(2)\<close>) is not modelled.
\<close>

function getln_loop :: "char list \<Rightarrow> stream \<Rightarrow> char list \<times> stream" where
  "getln_loop acc s =
     (case fgetc s of
        (None, s') \<Rightarrow> (acc, s')
      | (Some c, s') \<Rightarrow> if c = NL then (acc, s') else getln_loop (acc @ [c]) s')"
  by pat_completeness auto
termination
  by (relation "measure (\<lambda>(acc, s). length (data s))")
     (auto simp: fgetc_def split: if_splits list.splits option.splits)

text \<open>
  \<open>getln\<close>: after the loop a set error indicator is the fatal read error
  (\<open>perror\<close>, \<open>exit(1)\<close>); a line of no bytes is returned as \<open>NULL\<close> (\<open>None\<close>), so
  an empty line and the end of input look alike to the caller. The result is the
  \<open>sz\<close> bytes read; the buffer the C code returns holds them followed by a NUL.
\<close>

definition getln :: "stream \<Rightarrow> error + (char list option \<times> stream)" where
  "getln s =
     (case getln_loop [] s of
        (ln, s') \<Rightarrow>
          if err_flag s' then Inl (Read_error (case rd_fail s' of None \<Rightarrow> [] | Some r \<Rightarrow> r))
          else if ln = [] then Inr (None, s')
          else Inr (Some ln, s'))"

declare getln_loop.simps [simp del]

section \<open>Lemmas\<close>

lemma fgetc_Some:
  "fgetc s = (Some c, s') \<Longrightarrow>
     data s = c # data s' \<and> eof_flag s' = eof_flag s \<and> err_flag s' = err_flag s \<and>
     rd_fail s' = rd_fail s"
  by (auto simp: fgetc_def split: if_splits list.splits option.splits)

lemma fgetc_None:
  "fgetc s = (None, s') \<Longrightarrow> data s' = data s \<and> (eof_flag s' \<or> err_flag s')"
  by (auto simp: fgetc_def split: if_splits list.splits option.splits)

lemma fgetc_None_flags:
  "fgetc s = (None, s') \<Longrightarrow> err_flag s \<le> err_flag s' \<and> rd_fail s' = rd_fail s"
  by (auto simp: fgetc_def split: if_splits list.splits option.splits)

text \<open>
  What the loop does: it appends to the buffer the bytes it read, which are the bytes
  the stream lost, none of them a newline.
\<close>

lemma getln_loop_consumed:
  "getln_loop acc s = (ln, s') \<Longrightarrow>
     \<exists>xs. ln = acc @ xs \<and> NL \<notin> set xs \<and>
       (data s = xs @ NL # data s' \<or> (data s = xs @ data s' \<and> (eof_flag s' \<or> err_flag s')))"
proof (induction acc s arbitrary: ln s' rule: getln_loop.induct)
  case (1 acc s)
  show ?case
  proof (cases "fgetc s")
    case (Pair r s1)
    show ?thesis
    proof (cases r)
      case None
      with 1(2) Pair have "ln = acc" "s' = s1" by (simp_all add: getln_loop.simps)
      with None Pair show ?thesis by (auto dest: fgetc_None)
    next
      case (Some c)
      with Pair have d: "data s = c # data s1" by (auto dest: fgetc_Some)
      show ?thesis
      proof (cases "c = NL")
        case True
        with 1(2) Pair Some d show ?thesis by (simp add: getln_loop.simps)
      next
        case False
        with 1(2) Pair Some have "getln_loop (acc @ [c]) s1 = (ln, s')"
          by (simp add: getln_loop.simps)
        from "1.IH"[OF Pair[symmetric] Some False this] obtain xs where
          "ln = (acc @ [c]) @ xs" "NL \<notin> set xs"
          "data s1 = xs @ NL # data s' \<or> (data s1 = xs @ data s' \<and> (eof_flag s' \<or> err_flag s'))"
          by blast
        with d False show ?thesis
          by (intro exI [of _ "c # xs"]) auto
      qed
    qed
  qed
qed

text \<open>The loop leaves the rest of the stream description unchanged.\<close>

lemma getln_loop_fields:
  "getln_loop acc s = (ln, s') \<Longrightarrow> rd_fail s' = rd_fail s \<and> err_flag s \<le> err_flag s'"
proof (induction acc s arbitrary: ln s' rule: getln_loop.induct)
  case (1 acc s)
  obtain r s1 where p: "fgetc s = (r, s1)" by fastforce
  show ?case
  proof (cases r)
    case None
    with 1(2) p have "s' = s1" by (simp add: getln_loop.simps)
    with None p show ?thesis by (auto dest: fgetc_None_flags)
  next
    case (Some c)
    from Some p have f: "rd_fail s1 = rd_fail s \<and> err_flag s1 = err_flag s"
      by (auto dest: fgetc_Some)
    show ?thesis
    proof (cases "c = NL")
      case True
      with 1(2) p Some f show ?thesis by (simp add: getln_loop.simps)
    next
      case False
      with 1(2) p Some have "getln_loop (acc @ [c]) s1 = (ln, s')"
        by (simp add: getln_loop.simps)
      from "1.IH"[OF p[symmetric] Some False this] f show ?thesis by simp
    qed
  qed
qed

lemma getln_Inr_consumed:
  "getln s = Inr (ln, s') \<Longrightarrow>
     \<exists>xs. ln = (if xs = [] then None else Some xs) \<and> NL \<notin> set xs \<and> \<not> err_flag s' \<and>
       (data s = xs @ NL # data s' \<or> (data s = xs @ data s' \<and> eof_flag s'))"
  by (cases "getln_loop [] s")
     (auto simp: getln_def split: if_splits dest!: getln_loop_consumed)

text \<open>
  Progress, the fact the reading loops of the program terminate by: a call of
  \<open>getln\<close> that returns without setting the end-of-file indicator has consumed a
  newline, and a returned line is never empty and has been consumed.
\<close>

lemma getln_progress:
  "getln s = Inr (ln, s') \<Longrightarrow> \<not> eof_flag s' \<Longrightarrow> length (data s') < length (data s)"
  by (auto dest!: getln_Inr_consumed)

lemma getln_Some_progress:
  "getln s = Inr (Some ln, s') \<Longrightarrow> ln \<noteq> [] \<and> length (data s') < length (data s)"
  by (auto dest!: getln_Inr_consumed split: if_splits)

text \<open>
  The reader's functional behaviour: from a stream whose end-of-file indicator is clear,
  \<open>getln\<close> returns the bytes before the first newline and consumes the newline; on a
  last line without newline it also meets the end of the data, where the device
  reports end of file or a read error.
\<close>

lemma getln_loop_line:
  "\<not> eof_flag s \<Longrightarrow> NL \<notin> set l \<Longrightarrow> data s = l @ NL # rest \<Longrightarrow>
     getln_loop acc s = (acc @ l, s\<lparr>data := rest\<rparr>)"
proof (induction l arbitrary: acc s)
  case Nil
  then show ?case by (simp add: getln_loop.simps fgetc_def)
next
  case (Cons c l)
  let ?s1 = "s\<lparr>data := l @ NL # rest\<rparr>"
  from Cons.prems have "fgetc s = (Some c, ?s1)" and "c \<noteq> NL"
    by (auto simp: fgetc_def)
  moreover have "getln_loop (acc @ [c]) ?s1 = (acc @ [c] @ l, ?s1\<lparr>data := rest\<rparr>)"
    using Cons.prems by (intro Cons.IH [THEN trans]) simp_all
  ultimately show ?case by (simp add: getln_loop.simps)
qed

lemma getln_loop_last:
  "\<not> eof_flag s \<Longrightarrow> NL \<notin> set l \<Longrightarrow> data s = l \<Longrightarrow>
     getln_loop acc s = (acc @ l, snd (fgetc (s\<lparr>data := []\<rparr>)))"
proof (induction l arbitrary: acc s)
  case Nil
  then show ?case
    by (cases "rd_fail s") (simp_all add: getln_loop.simps fgetc_def)
next
  case (Cons c l)
  let ?s1 = "s\<lparr>data := l\<rparr>"
  from Cons.prems have "fgetc s = (Some c, ?s1)" and "c \<noteq> NL"
    by (auto simp: fgetc_def)
  moreover have "getln_loop (acc @ [c]) ?s1 = (acc @ [c] @ l, snd (fgetc (?s1\<lparr>data := []\<rparr>)))"
    using Cons.prems by (intro Cons.IH [THEN trans]) simp_all
  ultimately show ?case by (simp add: getln_loop.simps)
qed

lemma getln_line:
  "\<not> eof_flag s \<Longrightarrow> \<not> err_flag s \<Longrightarrow> NL \<notin> set l \<Longrightarrow> data s = l @ NL # rest \<Longrightarrow>
     getln s = Inr (if l = [] then None else Some l, s\<lparr>data := rest\<rparr>)"
  by (simp add: getln_def getln_loop_line)

lemma getln_last:
  "\<not> eof_flag s \<Longrightarrow> \<not> err_flag s \<Longrightarrow> NL \<notin> set l \<Longrightarrow> data s = l \<Longrightarrow>
     getln s = (case rd_fail s of
        None \<Rightarrow> Inr (if l = [] then None else Some l, s\<lparr>data := [], eof_flag := True\<rparr>)
      | Some r \<Rightarrow> Inl (Read_error r))"
  by (cases "rd_fail s") (simp_all add: getln_def getln_loop_last fgetc_def)

lemma getln_at_eof:
  "eof_flag s \<Longrightarrow> \<not> err_flag s \<Longrightarrow> getln s = Inr (None, s)"
  by (simp add: getln_def getln_loop.simps fgetc_def)

section \<open>Properties of the reader\<close>

text \<open>
  C13: \<open>getln\<close> on a stream whose end-of-file indicator is clear returns the bytes up
  to the first newline and consumes the newline; without a newline it returns the rest
  and sets the end-of-file indicator, or fails with the device's read error. An empty
  line is returned as \<open>NULL\<close>, like the end of input.
\<close>

theorem getln_spec:
  assumes "\<not> eof_flag s" "\<not> err_flag s"
  shows "getln s =
           (if NL \<in> set (data s) then
              Inr (if takeWhile (\<lambda>c. c \<noteq> NL) (data s) = [] then None
                   else Some (takeWhile (\<lambda>c. c \<noteq> NL) (data s)),
                   s\<lparr>data := tl (dropWhile (\<lambda>c. c \<noteq> NL) (data s))\<rparr>)
            else case rd_fail s of
              None \<Rightarrow> Inr (if data s = [] then None else Some (data s),
                          s\<lparr>data := [], eof_flag := True\<rparr>)
            | Some r \<Rightarrow> Inl (Read_error r))"
proof (cases "NL \<in> set (data s)")
  case True
  have "NL \<notin> set (takeWhile (\<lambda>c. c \<noteq> NL) (data s))" by (auto dest: set_takeWhileD)
  with True split_at_first[OF True] assms show ?thesis by (simp add: getln_line)
next
  case False
  with assms show ?thesis by (simp add: getln_last)
qed

theorem getln_spec_witness:
  "getln \<lparr>data = ''a=1\<newline>b'', eof_flag = False, err_flag = False, rd_fail = None\<rparr> =
     Inr (Some ''a=1'', \<lparr>data = ''b'', eof_flag = False, err_flag = False, rd_fail = None\<rparr>)"
  using getln_spec[of "\<lparr>data = ''a=1\<newline>b'', eof_flag = False, err_flag = False, rd_fail = None\<rparr>"]
  by simp

end
