(* ===== verification/Classifier.thy ===== *)
theory Classifier
  imports Reader
begin

text \<open>
  The line classifier of \<open>src/diffkv.c\<close>: \<open>enum line_type\<close> (lines 14--19),
  \<open>getlntype\<close> (lines 49--64), which looks at a line returned by \<open>getln\<close> without
  consuming it, and \<open>getnonwsln\<close> (lines 66--83), which reads lines until one is text
  or the end-of-file indicator is set.
\<close>

datatype line_type =
    LINE_TYPE_EMPTY
  | LINE_TYPE_WS
  | LINE_TYPE_COMMENT
  | LINE_TYPE_TEXT

text \<open>
  The \<open>for (c = ln; *c; c++)\<close> loop (lines 56--62) over the line's bytes; the empty
  list is the terminator \<open>getln\<close> writes after the last byte, and an embedded NUL
  ends the scan as well.
\<close>

fun lntype_scan :: "cbuf \<Rightarrow> line_type" where
  "lntype_scan [] = LINE_TYPE_WS"
| "lntype_scan (c # cs) =
     (if c = NUL then LINE_TYPE_WS
      else if isspace c then lntype_scan cs
      else if c = CHR ''#'' then LINE_TYPE_COMMENT
      else LINE_TYPE_TEXT)"

definition getlntype :: "cbuf option \<Rightarrow> line_type" where
  "getlntype ln = (case ln of None \<Rightarrow> LINE_TYPE_EMPTY | Some b \<Rightarrow> lntype_scan b)"

text \<open>
  \<open>getnonwsln\<close>: the \<open>free(ln)\<close> of a skipped line has no observable effect and is
  not modelled. The loop stops by \<open>getln_progress\<close>: every turn that goes on has
  consumed a newline.
\<close>

function getnonwsln :: "stream \<Rightarrow> error + (cbuf option \<times> stream)" where
  "getnonwsln s =
     (case getln s of
        Inl e \<Rightarrow> Inl e
      | Inr (ln, s') \<Rightarrow>
          if getlntype ln = LINE_TYPE_TEXT then Inr (ln, s')
          else if eof_flag s' then Inr (None, s')
          else getnonwsln s')"
  by pat_completeness auto
termination
  by (relation "measure (\<lambda>s. length (data s))") (auto dest: getln_progress)

declare getnonwsln.simps [simp del]

section \<open>Lemmas\<close>

text \<open>
  The classification as a property of the C string the line holds: the first byte
  that is not whitespace decides, and a line of whitespace only (or empty as a C
  string) is \<open>LINE_TYPE_WS\<close>.
\<close>

lemma lntype_scan_cstr:
  "lntype_scan b =
     (case dropWhile isspace (cstr b) of
        [] \<Rightarrow> LINE_TYPE_WS
      | c # _ \<Rightarrow> if c = CHR ''#'' then LINE_TYPE_COMMENT else LINE_TYPE_TEXT)"
  by (induction b) auto

lemma getlntype_text_iff:
  "getlntype ln = LINE_TYPE_TEXT \<longleftrightarrow>
     (\<exists>b. ln = Some b \<and>
          (case dropWhile isspace (cstr b) of [] \<Rightarrow> False | c # _ \<Rightarrow> c \<noteq> CHR ''#''))"
  by (auto simp: getlntype_def lntype_scan_cstr split: option.split list.split
      dest: dropWhile_eq_ConsD)

text \<open>What \<open>getnonwsln\<close> returns: a text line it has consumed, or \<open>NULL\<close> at end of file.\<close>

lemma getnonwsln_Some:
  "getnonwsln s = Inr (Some ln, s') \<Longrightarrow>
     getlntype (Some ln) = LINE_TYPE_TEXT \<and> length (data s') < length (data s)"
proof (induction s rule: getnonwsln.induct)
  case (1 s)
  show ?case
  proof (cases "getln s")
    case (Inl e)
    with "1.prems" show ?thesis by (simp add: getnonwsln.simps)
  next
    case (Inr r)
    obtain l s1 where r: "r = (l, s1)" by fastforce
    show ?thesis
    proof (cases "getlntype l = LINE_TYPE_TEXT")
      case True
      with "1.prems" Inr r show ?thesis
        by (auto simp: getnonwsln.simps getlntype_def dest: getln_Some_progress)
    next
      case False
      with "1.prems" Inr r have ne: "\<not> eof_flag s1" and rec: "getnonwsln s1 = Inr (Some ln, s')"
        by (auto simp: getnonwsln.simps split: if_splits)
      from "1.IH"[OF Inr r[symmetric] False ne rec] getln_progress[OF Inr[unfolded r] ne]
      show ?thesis by simp
    qed
  qed
qed

lemma getnonwsln_None:
  "getnonwsln s = Inr (None, s') \<Longrightarrow> eof_flag s'"
proof (induction s rule: getnonwsln.induct)
  case (1 s)
  show ?case
  proof (cases "getln s")
    case (Inl e)
    with "1.prems" show ?thesis by (simp add: getnonwsln.simps)
  next
    case (Inr r)
    obtain l s1 where r: "r = (l, s1)" by fastforce
    show ?thesis
    proof (cases "getlntype l = LINE_TYPE_TEXT \<or> eof_flag s1")
      case True
      with "1.prems" Inr r show ?thesis
        by (auto simp: getnonwsln.simps getlntype_def split: if_splits)
    next
      case False
      with "1.prems" Inr r have "getnonwsln s1 = Inr (None, s')"
        by (simp add: getnonwsln.simps)
      with False show ?thesis using "1.IH"[OF Inr r[symmetric]] by blast
    qed
  qed
qed

section \<open>Properties of the classifier\<close>

text \<open>
  C14: \<open>getlntype\<close> classifies a line by its C string: \<open>NULL\<close> is empty, a line of
  whitespace only is whitespace, a line whose first non-whitespace byte is \<open>#\<close> is a
  comment, and any other line is text.
\<close>

theorem getlntype_classifies:
  "getlntype ln =
     (case ln of
        None \<Rightarrow> LINE_TYPE_EMPTY
      | Some b \<Rightarrow> (case dropWhile isspace (cstr b) of
                   [] \<Rightarrow> LINE_TYPE_WS
                 | c # _ \<Rightarrow> if c = CHR ''#'' then LINE_TYPE_COMMENT else LINE_TYPE_TEXT))"
  by (simp add: getlntype_def lntype_scan_cstr split: option.split)

end
