(* ===== verification/Parser.thy ===== *)
theory Parser
  imports Prelude
begin

text \<open>
  The entry parser: the body of the loop of \<open>kvs_from_file\<close> in \<open>src/diffkv.c\<close>
  (lines 108--144) that splits a text line into a key and a value by walking a pointer
  \<open>c\<close> over the line's buffer and writing NUL terminators into it. The buffer is the
  \<open>sz + 1\<close> bytes \<open>getln\<close> allocated: the line's bytes and a NUL. Pointers are indices
  into it; every read is checked against the block, and a read outside it is the fault
  \<open>Heap_overread\<close> (or \<open>Heap_underread\<close>), undefined behaviour in C.

  \<open>parse_spec\<close> is the reading of the same code on lists, with no indices; the lemmas
  prove that the pointer-level parser computes it on every line without an embedded NUL.
\<close>

section \<open>Pointer scans\<close>

text \<open>\<open>while (P( *c)) c++;\<close> over a heap block \<open>b\<close>, from index \<open>i\<close>.\<close>

function scan_fwd :: "(char \<Rightarrow> bool) \<Rightarrow> cbuf \<Rightarrow> nat \<Rightarrow> fault + nat" where
  "scan_fwd P b i =
     (if i < length b then (if P (b ! i) then scan_fwd P b (Suc i) else Inr i)
      else Inl Heap_overread)"
  by pat_completeness auto
termination
  by (relation "measure (\<lambda>(P, b, i). length b - i)") auto

declare scan_fwd.simps [simp del]

text \<open>\<open>while (P( *c)) c--;\<close> from index \<open>i\<close>; stepping below index 0 leaves the block.\<close>

fun scan_back :: "(char \<Rightarrow> bool) \<Rightarrow> cbuf \<Rightarrow> nat \<Rightarrow> fault + nat" where
  "scan_back P b 0 =
     (if 0 < length b then (if P (b ! 0) then Inl Heap_underread else Inr 0)
      else Inl Heap_overread)"
| "scan_back P b (Suc i) =
     (if Suc i < length b then (if P (b ! Suc i) then scan_back P b i else Inr (Suc i))
      else Inl Heap_overread)"

text \<open>
  \<open>strchr(b + i, ch)\<close> of \<open><string.h>\<close>: the first \<open>ch\<close> from \<open>i\<close> on, up to the
  terminating NUL; \<open>None\<close> is the \<open>NULL\<close> result.
\<close>

definition strchr :: "cbuf \<Rightarrow> nat \<Rightarrow> char \<Rightarrow> fault + nat option" where
  "strchr b i ch =
     (case scan_fwd (\<lambda>x. x \<noteq> ch \<and> x \<noteq> NUL) b i of
        Inl f \<Rightarrow> Inl f
      | Inr j \<Rightarrow> Inr (if b ! j = ch then Some j else None))"

section \<open>Entries\<close>

text \<open>
  \<open>struct kv\<close> (lines 9--12). Its fields are pointers into the line's buffer that the
  program only ever reads as C strings (\<open>strcmp\<close>, \<open>printf("%s")\<close>) after the
  parser has written its terminators, so an entry is modelled by the two C strings.
  The fields are named \<open>kv_k\<close> and \<open>kv_v\<close> so that \<open>k\<close> and \<open>v\<close> stay free as
  variable names.
\<close>

record kv =
  kv_k :: cstring
  kv_v :: cstring

text \<open>A byte the key scan of line 115 runs over: neither whitespace nor \<open>=\<close>.\<close>

definition keych :: "char \<Rightarrow> bool" where
  "keych x \<longleftrightarrow> \<not> isspace x \<and> x \<noteq> CHR ''=''"

text \<open>
  The parser, step by step as lines 108--144: skip leading whitespace (the key starts
  at \<open>ks\<close>); scan the key up to whitespace or \<open>=\<close> (stop \<open>c\<close>); the separator is
  at \<open>c\<close> or found by \<open>strchr\<close> (\<open>eq\<close>), else the fatal \<open>missing '='\<close> error
  naming the line; terminate the key (\<open>*c = 0\<close>); skip whitespace after the
  separator (the value starts at \<open>vs\<close>); unless the value is empty, walk to its end
  \<open>n\<close>, back over trailing whitespace to \<open>t\<close>, and terminate it (\<open>*++c = 0\<close>).
\<close>

definition parse_kv :: "cbuf \<Rightarrow> error + kv" where
  "parse_kv ln =
     (let b = ln @ [NUL] in
      scan_then (scan_fwd isspace b 0) (\<lambda>ks.
      scan_then (scan_fwd keych b ks) (\<lambda>c.
      scan_then (if b ! c = CHR ''='' then Inr (Some c) else strchr b c (CHR ''='')) (\<lambda>eq.
      case eq of
        None \<Rightarrow> Inl (Missing_eq (cstr b))
      | Some e \<Rightarrow>
          (let b1 = b[c := NUL] in
           scan_then (scan_fwd isspace b1 (Suc e)) (\<lambda>vs.
           if b1 ! vs = NUL then Inr \<lparr>kv_k = cstr (drop ks b1), kv_v = cstr (drop vs b1)\<rparr>
           else
             scan_then (scan_fwd (\<lambda>x. x \<noteq> NUL) b1 vs) (\<lambda>n.
             scan_then (scan_back isspace b1 (n - 1)) (\<lambda>t.
             (let b2 = b1[Suc t := NUL] in
              Inr \<lparr>kv_k = cstr (drop ks b2), kv_v = cstr (drop vs b2)\<rparr>)))))))))"

text \<open>
  The same parser on lists (the contract of spec section 4.3, as the code has it):
  the key is the run of key bytes after the leading whitespace; when that run reaches
  the end of the line the scan of line 115 leaves the buffer; otherwise the first
  \<open>=\<close> after the key separates it from the value, which is stripped of whitespace on
  both sides.
\<close>

definition parse_spec :: "cstring \<Rightarrow> error + kv" where
  "parse_spec s =
     (let r0 = dropWhile isspace s;
          r1 = dropWhile keych r0
      in if r1 = [] then Inl (Undefined Heap_overread)
         else if CHR ''='' \<notin> set r1 then Inl (Missing_eq s)
         else Inr \<lparr>kv_k = takeWhile keych r0,
                   kv_v = rtrim (dropWhile isspace (tl (dropWhile (\<lambda>x. x \<noteq> CHR ''='') r1)))\<rparr>)"

section \<open>Lemmas\<close>

subsection \<open>Pointer scans\<close>

text \<open>
  The forward scan stops at the first byte from \<open>i\<close> on that fails \<open>P\<close>, and leaves
  the block when there is none; the backward scan stops at the last such byte.
\<close>

lemma scan_fwd_eq:
  "scan_fwd P b i =
     (if \<forall>c\<in>set (drop i b). P c then Inl Heap_overread
      else Inr (i + length (takeWhile P (drop i b))))"
proof (induction P b i rule: scan_fwd.induct)
  case (1 P b i)
  show ?case
  proof (cases "i < length b")
    case True
    then have d: "drop i b = b ! i # drop (Suc i) b" by (simp add: Cons_nth_drop_Suc)
    show ?thesis
      using "1.IH"[OF True] True by (subst scan_fwd.simps) (simp add: d)
  next
    case False
    then show ?thesis by (subst scan_fwd.simps) simp
  qed
qed

lemma scan_fwd_drop:
  "drop i b = xs @ ys \<Longrightarrow> \<forall>c\<in>set xs. P c \<Longrightarrow> ys = [] \<or> \<not> P (hd ys) \<Longrightarrow>
     scan_fwd P b i = (if ys = [] then Inl Heap_overread else Inr (i + length xs))"
  by (cases ys) (auto simp: scan_fwd_eq takeWhile_append)

lemma scan_back_stop:
  "i < length b \<Longrightarrow> j \<le> i \<Longrightarrow> \<not> P (b ! j) \<Longrightarrow> \<forall>k. j < k \<and> k \<le> i \<longrightarrow> P (b ! k) \<Longrightarrow>
     scan_back P b i = Inr j"
proof (induction i)
  case 0
  then show ?case by simp
next
  case (Suc i)
  show ?case
  proof (cases "j = Suc i")
    case True
    with Suc.prems show ?thesis by simp
  next
    case False
    with Suc.prems have "P (b ! Suc i)" "j \<le> i" by auto
    with Suc.prems Suc.IH show ?thesis by simp
  qed
qed

subsection \<open>The pointer-level parser computes the list-level one\<close>

text \<open>
  The value stage (lines 128--144), for a buffer whose bytes after the separator are
  \<open>t\<close> and a terminator, and a key that writes after the separator do not change.
\<close>

lemma parse_value_stage:
  assumes d: "drop p b1 = t @ [NUL]" and nt: "NUL \<notin> set t"
    and kp: "\<And>q. p \<le> q \<Longrightarrow> cstr (drop ks (b1[q := NUL])) = cstr (drop ks b1)"
  shows "scan_then (scan_fwd isspace b1 p) (\<lambda>vs.
           if b1 ! vs = NUL then Inr \<lparr>kv_k = cstr (drop ks b1), kv_v = cstr (drop vs b1)\<rparr>
           else scan_then (scan_fwd (\<lambda>x. x \<noteq> NUL) b1 vs) (\<lambda>n.
             scan_then (scan_back isspace b1 (n - 1)) (\<lambda>t.
               Inr \<lparr>kv_k = cstr (drop ks (b1[Suc t := NUL])),
                    kv_v = cstr (drop vs (b1[Suc t := NUL]))\<rparr>)))
         = Inr \<lparr>kv_k = cstr (drop ks b1), kv_v = rtrim (dropWhile isspace t)\<rparr>"
proof -
  define w where "w = takeWhile isspace t"
  define u where "u = dropWhile isspace t"
  define q where "q = p + length w"
  have b1: "drop p b1 = w @ (u @ [NUL])" using d by (simp add: w_def u_def)
  have wsp: "\<forall>c\<in>set w. isspace c" by (auto simp: w_def dest: set_takeWhileD)
  have hu: "u @ [NUL] = [] \<or> \<not> isspace (hd (u @ [NUL]))"
  proof (cases u)
    case (Cons a l)
    then have "\<not> isspace a" using dropWhile_eq_ConsD[of isspace t a l] by (simp add: u_def)
    with Cons show ?thesis by simp
  qed simp
  have vs: "scan_fwd isspace b1 p = Inr q"
    using scan_fwd_drop[OF b1 wsp hu] by (simp add: q_def)
  have dq: "drop q b1 = u @ [NUL]"
  proof -
    have "drop q b1 = drop (length w) (drop p b1)" by (simp add: q_def add.commute)
    also have "\<dots> = u @ [NUL]"
      using d by (simp add: w_def u_def dropWhile_eq_drop[of isspace t] length_takeWhile_le)
    finally show ?thesis .
  qed
  have ql: "q < length b1" and at: "b1 ! q = hd (u @ [NUL])"
    using drop_nth_eq[OF dq, of 0] by (simp_all add: hd_conv_nth)
  have nu: "NUL \<notin> set u" using nt by (auto simp: u_def dest: set_dropWhileD)
  show ?thesis
  proof (cases "u = []")
    case True
    then show ?thesis using vs dq at by (simp add: u_def[symmetric])
  next
    case False
    define z where "z = rtrim u"
    obtain ws where z: "u = z @ ws" and wss: "\<forall>c\<in>set ws. isspace c"
      using rtrim_split unfolding z_def by blast
    have hnu: "\<not> isspace (hd u)" using False by (simp add: u_def hd_dropWhile)
    have zne: "z \<noteq> []" and zl: "\<not> isspace (last z)"
      using rtrim_hd[OF False hnu] rtrim_last unfolding z_def by blast+
    have nz: "NUL \<notin> set z" using nu z by auto
    have lz: "0 < length z" using zne by simp
    have n: "scan_fwd (\<lambda>x. x \<noteq> NUL) b1 q = Inr (q + length u)"
    proof -
      have "\<forall>c\<in>set u. c \<noteq> NUL" using nu by auto
      then show ?thesis using scan_fwd_drop[OF dq, of "\<lambda>x. x \<noteq> NUL"] by simp
    qed
    have bq: "\<And>m. m < length u \<Longrightarrow> b1 ! (q + m) = u ! m"
      using drop_nth_eq[OF dq] by (simp add: nth_append)
    have lb: "length b1 = q + length u + 1"
      using arg_cong[OF dq, of length] ql by simp
    have bk: "scan_back isspace b1 (q + length u - 1) = Inr (q + length z - 1)"
    proof (rule scan_back_stop)
      show "q + length u - 1 < length b1" using lb by simp
      show "q + length z - 1 \<le> q + length u - 1" using z by simp
      show "\<not> isspace (b1 ! (q + length z - 1))"
      proof -
        have e: "q + length z - 1 = q + (length z - 1)" using lz by arith
        have "length z - 1 < length u" using lz z by (simp only: length_append)
        then have "b1 ! (q + (length z - 1)) = last z"
          using bq z lz zne by (simp add: nth_append last_conv_nth)
        then show ?thesis using zl e by simp
      qed
      show "\<forall>k. q + length z - 1 < k \<and> k \<le> q + length u - 1 \<longrightarrow> isspace (b1 ! k)"
      proof (intro allI impI)
        fix k assume k: "q + length z - 1 < k \<and> k \<le> q + length u - 1"
        define m where "m = k - (q + length z)"
        have lu: "length u = length z + length ws" using z by simp
        have km: "k = q + length z + m" and mw: "m < length ws"
          using k lz lu unfolding m_def by arith+
        then show "isspace (b1 ! k)"
          using bq[of "length z + m"] z wss by (simp add: nth_append add.assoc)
      qed
    qed
    have v: "cstr (drop q (b1[q + length z := NUL])) = z"
      using dq z nz zne by (simp add: drop_update_swap cstr_update_at)
    have sq: "Suc (q + length z - 1) = q + length z" using zne by (cases z) auto
    have atn: "b1 ! q \<noteq> NUL" using at False nu by (cases u) auto
    have pq: "p \<le> q + length z" by (simp add: q_def)
    show ?thesis
      using vs atn n bk sq v kp[OF pq] by (simp add: z_def u_def)
  qed
qed

lemma parse_sep:
  assumes nr: "NUL \<notin> set r1" and ne: "r1 \<noteq> []" and dc: "drop c b = r1 @ [NUL]"
  shows "(if b ! c = CHR ''='' then Inr (Some c) else strchr b c (CHR ''='')) =
           Inr (if CHR ''='' \<in> set r1
                then Some (c + length (takeWhile (\<lambda>x. x \<noteq> CHR ''='') r1)) else None)"
proof -
  let ?g = "takeWhile (\<lambda>x. x \<noteq> CHR ''='') r1"
  let ?rest = "dropWhile (\<lambda>x. x \<noteq> CHR ''='') r1"
  have bc: "b ! c = hd r1"
    using drop_nth_eq[OF dc, of 0] ne by (simp add: hd_conv_nth nth_append)
  show ?thesis
  proof (cases "hd r1 = CHR ''=''")
    case True
    then have "?g = []" and "CHR ''='' \<in> set r1" using ne by (cases r1; simp)+
    with True bc show ?thesis by simp
  next
    case False
    have dr: "drop c b = ?g @ (?rest @ [NUL])" using dc by simp
    have gp: "\<forall>x\<in>set ?g. x \<noteq> CHR ''='' \<and> x \<noteq> NUL"
      using nr by (auto dest: set_takeWhileD)
    have hr: "?rest @ [NUL] = [] \<or> \<not> (hd (?rest @ [NUL]) \<noteq> CHR ''='' \<and> hd (?rest @ [NUL]) \<noteq> NUL)"
    proof (cases ?rest)
      case Nil
      have e: "?rest @ [NUL] = [NUL]" by (simp only: Nil append.left_neutral)
      show ?thesis unfolding e by simp
    next
      case (Cons a l)
      then show ?thesis using dropWhile_eq_ConsD[OF Cons] by simp
    qed
    have sc: "scan_fwd (\<lambda>x. x \<noteq> CHR ''='' \<and> x \<noteq> NUL) b c = Inr (c + length ?g)"
      using scan_fwd_drop[OF dr gp hr] by simp
    have dg: "drop (c + length ?g) b = ?rest @ [NUL]"
    proof -
      have "drop (c + length ?g) b = drop (length ?g) (drop c b)" by (simp add: add.commute)
      then show ?thesis using dr by simp
    qed
    have at: "b ! (c + length ?g) = hd (?rest @ [NUL])"
      using drop_nth_eq[OF dg, of 0] by (simp add: hd_conv_nth)
    have iff: "?rest \<noteq> [] \<longleftrightarrow> CHR ''='' \<in> set r1"
      by (induction r1) auto
    have hd_eq: "?rest \<noteq> [] \<Longrightarrow> hd ?rest = CHR ''=''"
      using hd_dropWhile[of "\<lambda>x. x \<noteq> CHR ''=''" r1] by simp
    show ?thesis
      using False bc sc at iff hd_eq by (cases "?rest = []") (auto simp: strchr_def)
  qed
qed

lemma parse_kv_eq_spec:
  assumes nul: "NUL \<notin> set s"
  shows "parse_kv s = parse_spec s"
proof -
  define b where "b = s @ [NUL]"
  define w0 where "w0 = takeWhile isspace s"
  define r0 where "r0 = dropWhile isspace s"
  define key where "key = takeWhile keych r0"
  define r1 where "r1 = dropWhile keych r0"
  have r0s: "r0 = key @ r1" by (simp add: key_def r1_def)
  have bs: "b = w0 @ key @ r1 @ [NUL]" by (simp add: b_def w0_def r0_def r0s[symmetric])
  have nr: "NUL \<notin> set key" "NUL \<notin> set r1"
    using nul by (auto simp: key_def r1_def r0_def dest!: set_takeWhileD set_dropWhileD)
  have wsp: "\<forall>x\<in>set w0. isspace x" by (auto simp: w0_def dest: set_takeWhileD)
  have hr0: "(key @ r1 @ [NUL]) = [] \<or> \<not> isspace (hd (key @ r1 @ [NUL]))"
  proof (cases r0)
    case (Cons a l)
    then have e: "key @ r1 @ [NUL] = a # l @ [NUL]" using r0s by simp
    show ?thesis unfolding e using dropWhile_eq_ConsD[of isspace s a l] Cons by (simp add: r0_def)
  qed (simp add: r0s)
  have ks: "scan_fwd isspace b 0 = Inr (length w0)"
    using scan_fwd_drop[OF _ wsp hr0, of 0 b] bs by simp
  have kk: "\<forall>x\<in>set key. keych x" by (auto simp: key_def dest: set_takeWhileD)
  show ?thesis
  proof (cases "r1 = []")
    case True
    have "\<forall>x\<in>set (key @ [NUL]). keych x" using kk by (simp add: keych_def)
    then have "scan_fwd keych b (length w0) = Inl Heap_overread"
      using scan_fwd_drop[of "length w0" b "key @ [NUL]" "[]" keych] bs True by simp
    moreover have "\<forall>x\<in>set r0. keych x" using True by (simp add: r1_def)
    ultimately show ?thesis
      using True ks by (simp add: parse_kv_def parse_spec_def b_def[symmetric]
          r0_def[symmetric] r1_def[symmetric])
  next
    case r1ne: False
    have nk: "\<exists>x\<in>set r0. \<not> keych x" using r1ne by (simp add: r1_def)
    have cb: "cstr b = s" using nul by (simp add: b_def)
    have hr1: "r1 @ [NUL] = [] \<or> \<not> keych (hd (r1 @ [NUL]))"
    proof (cases r1)
      case (Cons a l)
      then have e: "r1 @ [NUL] = a # l @ [NUL]" by simp
      show ?thesis unfolding e using dropWhile_eq_ConsD[of keych r0 a l] Cons by (simp add: r1_def)
    qed (use r1ne in simp)
    let ?c = "length w0 + length key"
    have c: "scan_fwd keych b (length w0) = Inr ?c"
      using scan_fwd_drop[OF _ kk hr1, of "length w0" b] bs r1ne by simp
    have dc: "drop ?c b = r1 @ [NUL]" by (simp add: bs)
    note sep = parse_sep[OF nr(2) r1ne dc]
    show ?thesis
    proof (cases "CHR ''='' \<in> set r1")
      case False
      then show ?thesis
        using ks c sep nk cb by (simp add: parse_kv_def parse_spec_def b_def[symmetric]
            r0_def[symmetric] r1_def[symmetric])
    next
      case eqin: True
      let ?g = "takeWhile (\<lambda>x. x \<noteq> CHR ''='') r1"
      define t where "t = tl (dropWhile (\<lambda>x. x \<noteq> CHR ''='') r1)"
      have r1g: "r1 = ?g @ CHR ''='' # t"
      proof -
        let ?rest = "dropWhile (\<lambda>x. x \<noteq> CHR ''='') r1"
        have ne: "?rest \<noteq> []" using eqin by (simp add: dropWhile_eq_Nil_conv)
        then have "?rest = CHR ''='' # t"
          using hd_dropWhile[OF ne] unfolding t_def by (cases ?rest) auto
        then show ?thesis by (metis takeWhile_dropWhile_id)
      qed
      let ?b1 = "b[?c := NUL]"
      have dr: "\<And>r g. r = g @ CHR ''='' # t \<Longrightarrow> drop (Suc (length g)) (r @ [NUL]) = t @ [NUL]"
        by simp
      have d: "drop (Suc (?c + length ?g)) ?b1 = t @ [NUL]"
      proof -
        have "drop (Suc (?c + length ?g)) ?b1 = drop (Suc (length ?g)) (drop ?c b)"
          by (simp add: add.commute)
        then show ?thesis using dc dr[OF r1g] by simp
      qed
      have nt: "NUL \<notin> set t"
      proof
        assume "NUL \<in> set t"
        then have "NUL \<in> set (?g @ CHR ''='' # t)" by simp
        with r1g nr(2) show False by metis
      qed
      have kb: "drop (length w0) ?b1 = key @ NUL # (tl r1 @ [NUL])"
        using r1ne by (cases r1) (simp_all add: bs drop_update_swap list_update_append)
      have kp: "\<And>q. Suc (?c + length ?g) \<le> q \<Longrightarrow>
          cstr (drop (length w0) (?b1[q := NUL])) = cstr (drop (length w0) ?b1)"
        using nr(1) by (simp add: drop_update_swap kb cstr_update_after)
      have key: "cstr (drop (length w0) ?b1) = key" using nr(1) by (simp add: kb)
      note v = parse_value_stage[OF d nt kp]
      have eqT: "(CHR ''='' \<in> set r1) = True" using eqin by simp
      have "parse_kv s = Inr \<lparr>kv_k = key, kv_v = rtrim (dropWhile isspace t)\<rparr>"
        unfolding parse_kv_def Let_def b_def[symmetric]
        by (simp only: ks c sep eqT if_True scan_then.simps option.case v) (simp only: key)
      then show ?thesis
        using eqin nk by (simp add: parse_spec_def r0_def[symmetric] r1_def[symmetric]
            key_def[symmetric] t_def[symmetric])
    qed
  qed
qed

subsection \<open>Lists and the list-level parser\<close>

lemma takeWhile_keych_sep:
  "\<forall>c\<in>set w. isspace c \<Longrightarrow> takeWhile keych (w @ CHR ''='' # r) = []"
  by (cases w) (auto simp: keych_def)

lemma dropWhile_keych_sep:
  "\<forall>c\<in>set w. isspace c \<Longrightarrow> dropWhile keych (w @ CHR ''='' # r) = w @ CHR ''='' # r"
  by (cases w) (auto simp: keych_def)

lemma dropWhile_not_eq_spaces:
  "\<forall>c\<in>set w. isspace c \<Longrightarrow> dropWhile (\<lambda>x. x \<noteq> CHR ''='') (w @ CHR ''='' # r) = CHR ''='' # r"
  by (induction w) auto

lemma trimmed_value:
  assumes "\<forall>c\<in>set w3. isspace c" "\<forall>c\<in>set w4. isspace c"
    and "v = [] \<or> \<not> isspace (hd v) \<and> \<not> isspace (last v)"
  shows "rtrim (dropWhile isspace (w3 @ v @ w4)) = v"
proof (cases "v = []")
  case True
  have "\<forall>c\<in>set (w3 @ v @ w4). isspace c" using assms(1,2) True by auto
  then have "dropWhile isspace (w3 @ v @ w4) = []" by (rule dropWhile_spaces_Nil)
  then show ?thesis using True by (simp only: rtrim_Nil)
next
  case False
  then have "dropWhile isspace (w3 @ v @ w4) = v @ w4"
    using assms by (cases v) (simp_all add: dropWhile_all_spaces)
  then show ?thesis using False assms rtrim_append_spaces[of w4 v] rtrim_no_trailing[of v] by simp
qed

lemma parse_spec_Inr:
  "parse_spec s = Inr kv \<Longrightarrow>
     kv_k kv = takeWhile keych (dropWhile isspace s) \<and>
     (\<exists>t. kv_v kv = rtrim (dropWhile isspace t) \<and> set t \<subseteq> set s) \<and>
     CHR ''='' \<in> set s"
  by (auto simp: parse_spec_def Let_def split: if_splits
      dest!: in_tl_dropWhile set_dropWhileD
      intro!: exI[of _ "tl (dropWhile (\<lambda>x. x \<noteq> CHR ''='') (dropWhile keych (dropWhile isspace s)))"])

lemma trimmed_rtrim:
  "rtrim (dropWhile isspace t) = [] \<or>
     \<not> isspace (hd (rtrim (dropWhile isspace t))) \<and> \<not> isspace (last (rtrim (dropWhile isspace t)))"
proof (cases "dropWhile isspace t = []")
  case False
  then have "\<not> isspace (hd (dropWhile isspace t))" by (simp add: hd_dropWhile)
  with False show ?thesis using rtrim_hd rtrim_last by metis
next
  case True
  then show ?thesis by (simp only: rtrim_Nil simp_thms)
qed

section \<open>Properties of the parser\<close>

text \<open>
  C7: round trip: a line made of optional whitespace, a key of key bytes, optional
  whitespace, \<open>=\<close>, optional whitespace, a value without NUL and without leading or
  trailing whitespace, and optional whitespace parses back to that key and value (the
  key may be empty).
\<close>

theorem parse_kv_roundtrip:
  assumes "\<forall>c\<in>set w1. isspace c" "\<forall>c\<in>set w2. isspace c" "\<forall>c\<in>set w3. isspace c"
    "\<forall>c\<in>set w4. isspace c" "\<forall>c\<in>set k. keych c \<and> c \<noteq> NUL" "NUL \<notin> set v"
    and "v = [] \<or> \<not> isspace (hd v) \<and> \<not> isspace (last v)"
  shows "parse_kv (w1 @ k @ w2 @ CHR ''='' # w3 @ v @ w4) = Inr \<lparr>kv_k = k, kv_v = v\<rparr>"
proof -
  let ?r = "w2 @ CHR ''='' # w3 @ v @ w4"
  have nul: "NUL \<notin> set (w1 @ k @ ?r)" using assms(1-6) by auto
  have r0: "dropWhile isspace (w1 @ k @ ?r) = dropWhile isspace (k @ ?r)"
    using assms(1) by (simp add: dropWhile_all_spaces)
  have r0': "dropWhile isspace (k @ ?r) = (if k = [] then CHR ''='' # w3 @ v @ w4 else k @ ?r)"
    using assms(2,5) by (cases k) (auto simp: keych_def dropWhile_all_spaces)
  have kk: "\<forall>c\<in>set k. keych c" using assms(5) by blast
  have key: "takeWhile keych (dropWhile isspace (w1 @ k @ ?r)) = k"
    using r0 r0' kk takeWhile_keych_sep[OF assms(2)] by (auto simp: takeWhile_append2 keych_def)
  have r1: "dropWhile keych (dropWhile isspace (w1 @ k @ ?r)) =
      (if k = [] then CHR ''='' # w3 @ v @ w4 else ?r)"
    using r0 r0' kk dropWhile_keych_sep[OF assms(2)] by (auto simp: dropWhile_append2 keych_def)
  have sep: "dropWhile (\<lambda>x. x \<noteq> CHR ''='') (if k = [] then CHR ''='' # w3 @ v @ w4 else ?r) =
      CHR ''='' # w3 @ v @ w4"
    using dropWhile_not_eq_spaces[OF assms(2)] by simp
  have "parse_spec (w1 @ k @ ?r) = Inr \<lparr>kv_k = k, kv_v = v\<rparr>"
    unfolding parse_spec_def Let_def r1 key
    using sep trimmed_value[OF assms(3,4,7)] by (cases "k = []") simp_all
  then show ?thesis using parse_kv_eq_spec[OF nul] by simp
qed

theorem parse_kv_roundtrip_witness:
  "parse_kv ('' '' @ ''key'' @ '' '' @ CHR ''='' # '' '' @ ''a b'' @ '' '') =
     Inr \<lparr>kv_k = ''key'', kv_v = ''a b''\<rparr> \<and>
   parse_kv ([] @ [] @ [] @ CHR ''='' # [] @ ''v'' @ []) = Inr \<lparr>kv_k = [], kv_v = ''v''\<rparr>"
  by (intro conjI parse_kv_roundtrip) (simp_all add: isspace_def keych_def)

text \<open>
  C12: every entry the parser returns from a line without NUL is well formed: its key
  consists of key bytes (no whitespace, no \<open>=\<close>, no NUL) and its value has no NUL and
  no leading or trailing whitespace.
\<close>

theorem parse_kv_wf:
  assumes "NUL \<notin> set s" "parse_kv s = Inr kv"
  shows "(\<forall>c\<in>set (kv_k kv). keych c \<and> c \<noteq> NUL) \<and> NUL \<notin> set (kv_v kv) \<and>
         (kv_v kv = [] \<or> \<not> isspace (hd (kv_v kv)) \<and> \<not> isspace (last (kv_v kv)))"
proof -
  have ps: "parse_spec s = Inr kv" using assms parse_kv_eq_spec by simp
  from parse_spec_Inr[OF ps] obtain t where
    k: "kv_k kv = takeWhile keych (dropWhile isspace s)" and
    v: "kv_v kv = rtrim (dropWhile isspace t)" and ts: "set t \<subseteq> set s" by blast
  have "\<forall>c\<in>set (kv_k kv). keych c \<and> c \<noteq> NUL"
    using assms(1) k by (auto dest: set_takeWhileD set_dropWhileD)
  moreover have "NUL \<notin> set (kv_v kv)"
    using assms(1) v ts set_rtrim by (fastforce dest: set_dropWhileD)
  ultimately show ?thesis using v trimmed_rtrim by simp
qed

theorem parse_kv_wf_witness:
  "parse_kv ''  k = v  '' = Inr \<lparr>kv_k = ''k'', kv_v = ''v''\<rparr> \<and> keych CHR ''k'' \<and>
   \<not> isspace CHR ''v''"
proof -
  have p: "parse_kv ''  k = v  '' = Inr \<lparr>kv_k = ''k'', kv_v = ''v''\<rparr>" by code_simp
  show ?thesis using parse_kv_wf[OF _ p] p by simp
qed

text \<open>
  C11: on a line without NUL the parser returns an entry exactly when the line
  contains \<open>=\<close>.
\<close>

theorem parse_kv_ok_iff:
  "NUL \<notin> set s \<Longrightarrow> (\<exists>kv. parse_kv s = Inr kv) \<longleftrightarrow> CHR ''='' \<in> set s"
proof -
  assume nul: "NUL \<notin> set s"
  have "CHR ''='' \<in> set s \<Longrightarrow> \<exists>kv. parse_spec s = Inr kv"
  proof -
    assume eq: "CHR ''='' \<in> set s"
    let ?r0 = "dropWhile isspace s"
    have r0: "CHR ''='' \<in> set ?r0" using eq by (simp add: in_dropWhile)
    then have "CHR ''='' \<in> set (dropWhile keych ?r0)" by (simp add: in_dropWhile keych_def)
    moreover have "\<exists>x\<in>set ?r0. \<not> keych x" using r0 by (auto simp: keych_def)
    ultimately show ?thesis by (auto simp: parse_spec_def Let_def)
  qed
  then show ?thesis using nul parse_kv_eq_spec parse_spec_Inr by fastforce
qed

theorem parse_kv_ok_iff_witness: "\<not> (\<exists>kv. parse_kv ''key value'' = Inr kv)"
  using parse_kv_ok_iff[of "''key value''"] by simp

text \<open>
  C10: on a line without NUL and without \<open>=\<close>, the parser reports the missing
  \<open>=\<close> naming the line when something other than key bytes follows the key, and
  otherwise the key scan of line 115 runs past the end of the line's buffer.
\<close>

theorem parse_kv_no_eq:
  assumes "NUL \<notin> set s" "CHR ''='' \<notin> set s"
  shows "parse_kv s = (if \<forall>c\<in>set (dropWhile isspace s). keych c then Inl (Undefined Heap_overread)
                       else Inl (Missing_eq s))"
proof -
  have "CHR ''='' \<notin> set (dropWhile keych (dropWhile isspace s))"
    using assms(2) by (auto dest!: set_dropWhileD)
  then show ?thesis using assms parse_kv_eq_spec by (simp add: parse_spec_def Let_def)
qed

theorem parse_kv_no_eq_witness:
  "parse_kv ''keywithoutequals'' = Inl (Undefined Heap_overread)"
  using parse_kv_no_eq[of "''keywithoutequals''"] by (simp add: keych_def isspace_def)

end
