(* ===== verification/Loader.thy ===== *)
theory Loader
  imports Classifier Parser
begin

text \<open>
  The file loader of \<open>src/diffkv.c\<close>: \<open>kvs_from_file\<close> (lines 85--153) drives the
  classifier and the entry parser over a stream and collects the entries in file order.
  The array of entry pointers it builds is modelled by the list of entries; the
  function returns \<open>NULL\<close> (\<open>None\<close>) when the file has no entry, as line 146 does.

  The specification \<open>load_spec\<close> says the same on the stream's bytes: split them at
  newlines, keep the text lines, parse each in order and stop at the first error; a
  read error, met when the data runs out, ends the load unless a parse error came
  first.
\<close>

section \<open>The loader\<close>

text \<open>
  The \<open>for (;;)\<close> loop of lines 91--145; \<open>acc\<close> holds the \<open>sz\<close> entries read so
  far. The allocation failures (\<open>_Exit(2)\<close>) are not modelled. The loop stops because
  \<open>getnonwsln\<close> consumes the line it returns (\<open>getnonwsln_Some\<close>).
\<close>

function kvs_loop :: "stream \<Rightarrow> kv list \<Rightarrow> error + (kv list \<times> stream)" where
  "kvs_loop s acc =
     (case getnonwsln s of
        Inl e \<Rightarrow> Inl e
      | Inr (None, s') \<Rightarrow> Inr (acc, s')
      | Inr (Some ln, s') \<Rightarrow>
          (case parse_kv ln of
             Inl e \<Rightarrow> Inl e
           | Inr kv \<Rightarrow> kvs_loop s' (acc @ [kv])))"
  by pat_completeness auto
termination
  by (relation "measure (\<lambda>(s, acc). length (data s))") (auto dest: getnonwsln_Some)

declare kvs_loop.simps [simp del]

definition kvs_from_file :: "stream \<Rightarrow> error + (kv list option \<times> stream)" where
  "kvs_from_file s =
     (case kvs_loop s [] of
        Inl e \<Rightarrow> Inl e
      | Inr (kvs, s') \<Rightarrow> Inr (if kvs = [] then None else Some kvs, s'))"

section \<open>The specification of a load\<close>

text \<open>The pieces of the data between newlines; a final piece may be empty.\<close>

fun split_nl :: "char list \<Rightarrow> char list list" where
  "split_nl [] = [[]]"
| "split_nl (c # cs) =
     (if c = NL then [] # split_nl cs
      else (case split_nl cs of [] \<Rightarrow> [[c]] | l # ls \<Rightarrow> (c # l) # ls))"

definition text_line :: "cbuf \<Rightarrow> bool" where
  "text_line l \<longleftrightarrow> getlntype (Some l) = LINE_TYPE_TEXT"

fun parse_all :: "cbuf list \<Rightarrow> error + kv list" where
  "parse_all [] = Inr []"
| "parse_all (l # ls) =
     (case parse_kv l of
        Inl e \<Rightarrow> Inl e
      | Inr kv \<Rightarrow> (case parse_all ls of Inl e \<Rightarrow> Inl e | Inr kvs \<Rightarrow> Inr (kv # kvs)))"

definition load_spec :: "char list \<Rightarrow> string option \<Rightarrow> error + kv list" where
  "load_spec d fail =
     (case fail of
        None \<Rightarrow> parse_all (filter text_line (split_nl d))
      | Some r \<Rightarrow>
          (case parse_all (filter text_line (butlast (split_nl d))) of
             Inl e \<Rightarrow> Inl e
           | Inr _ \<Rightarrow> Inl (Read_error r)))"

section \<open>Lemmas\<close>

subsection \<open>Lines of the data\<close>

lemma split_nl_ne: "split_nl d \<noteq> []"
  by (induction d) (auto split: list.split)

lemma split_nl_last: "NL \<notin> set l \<Longrightarrow> split_nl l = [l]"
  by (induction l) auto

lemma split_nl_line: "NL \<notin> set l \<Longrightarrow> split_nl (l @ NL # rest) = l # split_nl rest"
  by (induction l) auto

lemma text_line_Nil [simp]: "\<not> text_line []"
  by (simp add: text_line_def getlntype_def)

lemma getlntype_opt: "getlntype (if l = [] then None else Some l) = LINE_TYPE_TEXT \<longleftrightarrow> text_line l"
  by (simp add: text_line_def getlntype_def)

subsection \<open>The classifier loop on the stream's lines\<close>

text \<open>
  \<open>getnonwsln\<close> on a stream whose data starts with a complete line \<open>l\<close>: it returns
  \<open>l\<close> when it is a text line and goes on with the rest otherwise; on a last line
  without newline it meets the end of the data.
\<close>

lemma getnonwsln_line:
  assumes "\<not> eof_flag s" "\<not> err_flag s" "NL \<notin> set l" "data s = l @ NL # rest"
  shows "getnonwsln s =
           (if text_line l then Inr (Some l, s\<lparr>data := rest\<rparr>) else getnonwsln (s\<lparr>data := rest\<rparr>))"
  using assms getlntype_opt[of l]
  by (subst getnonwsln.simps) (auto simp: getln_line)

lemma getnonwsln_last:
  assumes "\<not> eof_flag s" "\<not> err_flag s" "NL \<notin> set (data s)"
  shows "getnonwsln s =
           (case rd_fail s of
              None \<Rightarrow> Inr (if text_line (data s) then Some (data s) else None,
                          s\<lparr>data := [], eof_flag := True\<rparr>)
            | Some r \<Rightarrow> Inl (Read_error r))"
  using assms getlntype_opt[of "data s"]
  by (subst getnonwsln.simps) (auto simp: getln_last split: option.split)

lemma getnonwsln_at_eof: "eof_flag s \<Longrightarrow> \<not> err_flag s \<Longrightarrow> getnonwsln s = Inr (None, s)"
  by (subst getnonwsln.simps) (simp add: getln_at_eof getlntype_def)

subsection \<open>The loader implements its specification\<close>

text \<open>
  The loop, by induction on the length of the data: each turn either consumes a
  complete line or meets the end of the data.
\<close>

lemma kvs_loop_spec:
  assumes "\<not> eof_flag s" "\<not> err_flag s"
  shows "kvs_loop s acc =
           (case rd_fail s of
              None \<Rightarrow> (case parse_all (filter text_line (split_nl (data s))) of
                        Inl e \<Rightarrow> Inl e
                      | Inr kvs \<Rightarrow> Inr (acc @ kvs, s\<lparr>data := [], eof_flag := True\<rparr>))
            | Some r \<Rightarrow> (case parse_all (filter text_line (butlast (split_nl (data s)))) of
                        Inl e \<Rightarrow> Inl e
                      | Inr _ \<Rightarrow> Inl (Read_error r)))"
  using assms
proof (induction s arbitrary: acc rule: measure_induct_rule[of "\<lambda>s. length (data s)"])
  case (less s)
  show ?case
  proof (cases "NL \<in> set (data s)")
    case True
    define l where "l = takeWhile (\<lambda>c. c \<noteq> NL) (data s)"
    define rest where "rest = tl (dropWhile (\<lambda>c. c \<noteq> NL) (data s))"
    have nl: "NL \<notin> set l" by (auto simp: l_def dest: set_takeWhileD)
    have d: "data s = l @ NL # rest"
      using split_at_first[OF True] unfolding l_def rest_def .
    let ?s1 = "s\<lparr>data := rest\<rparr>"
    have lt: "length (data ?s1) < length (data s)" by (simp add: d)
    have sp: "split_nl (data s) = l # split_nl rest" by (simp add: d split_nl_line nl)
    have bl: "butlast (split_nl (data s)) = l # butlast (split_nl rest)"
      by (simp add: sp split_nl_ne)
    have IH: "\<And>acc'. kvs_loop ?s1 acc' =
        (case rd_fail s of
           None \<Rightarrow> (case parse_all (filter text_line (split_nl rest)) of
                     Inl e \<Rightarrow> Inl e
                   | Inr kvs \<Rightarrow> Inr (acc' @ kvs, s\<lparr>data := [], eof_flag := True\<rparr>))
         | Some r \<Rightarrow> (case parse_all (filter text_line (butlast (split_nl rest))) of
                     Inl e \<Rightarrow> Inl e
                   | Inr _ \<Rightarrow> Inl (Read_error r)))"
      using less.prems by (simp add: less.IH[OF lt] split: option.split sum.split)
    show ?thesis
    proof (cases "text_line l")
      case True
      have k: "kvs_loop s acc =
          (case parse_kv l of Inl e \<Rightarrow> Inl e | Inr kv \<Rightarrow> kvs_loop ?s1 (acc @ [kv]))"
        using getnonwsln_line[OF less.prems nl d] True by (subst kvs_loop.simps) simp
      show ?thesis
        by (cases "parse_kv l") (auto simp: k IH sp bl True split_nl_ne split: option.split sum.split)
    next
      case False
      have "kvs_loop s acc = kvs_loop ?s1 acc"
        using less.prems nl d False by (subst (1 2) kvs_loop.simps) (simp add: getnonwsln_line)
      then show ?thesis using False by (simp add: IH sp bl split: option.split)
    qed
  next
    case False
    let ?s2 = "s\<lparr>data := [], eof_flag := True\<rparr>"
    have sp: "split_nl (data s) = [data s]" using False by (simp add: split_nl_last)
    show ?thesis
      using less.prems False
      by (subst kvs_loop.simps)
         (auto simp: getnonwsln_last sp kvs_loop.simps[of ?s2] getnonwsln_at_eof
           split: option.split sum.split)
  qed
qed

lemma kvs_from_file_spec:
  "\<not> eof_flag s \<Longrightarrow> \<not> err_flag s \<Longrightarrow>
     kvs_from_file s =
       (case load_spec (data s) (rd_fail s) of
          Inl e \<Rightarrow> Inl e
        | Inr kvs \<Rightarrow> Inr (if kvs = [] then None else Some kvs, s\<lparr>data := [], eof_flag := True\<rparr>))"
  by (auto simp: kvs_from_file_def kvs_loop_spec load_spec_def split: option.split sum.split)

lemma kvs_from_file_at_eof:
  "eof_flag s \<Longrightarrow> \<not> err_flag s \<Longrightarrow> kvs_from_file s = Inr (None, s)"
  by (simp add: kvs_from_file_def kvs_loop.simps getnonwsln_at_eof)

subsection \<open>Skipping lines that are not text\<close>

lemma getnonwsln_skip:
  assumes "\<not> eof_flag s" "\<not> err_flag s" "\<forall>l\<in>set ls. NL \<notin> set l \<and> \<not> text_line l"
    and "data s = concat (map (\<lambda>l. l @ [NL]) ls) @ rest"
  shows "getnonwsln s = getnonwsln (s\<lparr>data := rest\<rparr>)"
  using assms
proof (induction ls arbitrary: s)
  case Nil
  then show ?case by (cases s) simp
next
  case (Cons l ls)
  let ?s1 = "s\<lparr>data := concat (map (\<lambda>l. l @ [NL]) ls) @ rest\<rparr>"
  have "getnonwsln s = getnonwsln ?s1"
    using Cons.prems getnonwsln_line[of s l] by simp
  also have "\<dots> = getnonwsln (s\<lparr>data := rest\<rparr>)"
    using Cons.IH[of ?s1] Cons.prems by simp
  finally show ?case .
qed

section \<open>Properties of the loader\<close>

text \<open>
  C2: on a freshly opened stream with data \<open>d\<close> (and device result \<open>f\<close> once \<open>d\<close> runs
  out), \<open>kvs_from_file\<close> computes the list-level load \<open>load_spec\<close>: the entries of the
  text lines in file order, \<open>NULL\<close> for none, the first parse error, or the read error;
  on success it has consumed the stream and set its end-of-file indicator.
\<close>

theorem kvs_from_file_refines:
  "kvs_from_file \<lparr>data = d, eof_flag = False, err_flag = False, rd_fail = f\<rparr> =
     (case load_spec d f of
        Inl e \<Rightarrow> Inl e
      | Inr kvs \<Rightarrow> Inr (if kvs = [] then None else Some kvs,
                       \<lparr>data = [], eof_flag = True, err_flag = False, rd_fail = f\<rparr>))"
  by (simp add: kvs_from_file_spec split: sum.split)

text \<open>
  C15: \<open>getnonwsln\<close> skips the empty, whitespace and comment lines before the
  first text line, and returns that line, consuming it and nothing after it.
\<close>

theorem getnonwsln_first_text:
  assumes "\<not> eof_flag s" "\<not> err_flag s" "\<forall>l\<in>set ls. NL \<notin> set l \<and> \<not> text_line l"
    and "NL \<notin> set l" "text_line l" "data s = concat (map (\<lambda>l. l @ [NL]) ls) @ l @ NL # rest"
  shows "getnonwsln s = Inr (Some l, s\<lparr>data := rest\<rparr>)"
  using getnonwsln_skip[OF assms(1-3,6)] getnonwsln_line[of "s\<lparr>data := l @ NL # rest\<rparr>" l rest] assms
  by simp

theorem getnonwsln_first_text_witness:
  "getnonwsln \<lparr>data = ''# c\<newline>  \<newline>\<newline>k=v\<newline>x'', eof_flag = False, err_flag = False, rd_fail = None\<rparr> =
     Inr (Some ''k=v'', \<lparr>data = ''x'', eof_flag = False, err_flag = False, rd_fail = None\<rparr>)"
  using getnonwsln_first_text[of "\<lparr>data = ''# c\<newline>  \<newline>\<newline>k=v\<newline>x'', eof_flag = False, err_flag = False, rd_fail = None\<rparr>"
      "[''# c'', ''  '', []]" "''k=v''" "''x''"]
  by (simp add: text_line_def getlntype_def isspace_def)

text \<open>
  C16: the skipping loop of \<open>getnonwsln\<close> ends: on a stream with no text line left it
  returns \<open>NULL\<close> after reading to the end of the input, with the end-of-file
  indicator set.
\<close>

theorem getnonwsln_no_text:
  assumes "\<not> eof_flag s" "\<not> err_flag s" "rd_fail s = None"
    and "\<forall>l\<in>set ls. NL \<notin> set l \<and> \<not> text_line l" "data s = concat (map (\<lambda>l. l @ [NL]) ls)"
  shows "getnonwsln s = Inr (None, s\<lparr>data := [], eof_flag := True\<rparr>)"
  using getnonwsln_skip[of s ls "[]"] getnonwsln_last[of "s\<lparr>data := []\<rparr>"] assms by simp

theorem getnonwsln_no_text_witness:
  "getnonwsln \<lparr>data = ''# c\<newline>  \<newline>'', eof_flag = False, err_flag = False, rd_fail = None\<rparr> =
     Inr (None, \<lparr>data = [], eof_flag = True, err_flag = False, rd_fail = None\<rparr>)"
  using getnonwsln_no_text[of "\<lparr>data = ''# c\<newline>  \<newline>'', eof_flag = False, err_flag = False, rd_fail = None\<rparr>"
      "[''# c'', ''  '']"]
  by (simp add: text_line_def getlntype_def isspace_def)

end
