(* ===== verification/Differ.thy ===== *)
theory Differ
  imports Parser
begin

text \<open>
  The differ of \<open>src/diffkv.c\<close>: \<open>kvs_find_key\<close> (lines 172--182) and \<open>diff\<close>
  (lines 184--208). An entry array \<open>struct kv **\<close> is a \<open>NULL\<close>-terminated array of
  pointers; it is modelled as \<open>slot list option\<close>: \<open>None\<close> is the \<open>NULL\<close> array that
  \<open>kvs_from_file\<close> returns for a file without entries, the list holds the slots before
  the terminator, and a slot is an entry or the sentinel \<open>KV_IGNORE\<close> (line 7) that
  \<open>diff\<close> writes over an entry it has consumed. The \<open>free\<close> calls have no observable
  effect and are not modelled; the reads they imply are.

  The report lines are values of \<open>diff_line\<close>; \<open>render\<close> is the \<open>printf\<close> format
  of each (the newline left out). \<open>spec_diff\<close> is the report spec section 4.5 asks
  for; \<open>c_outcome\<close> is what the C code makes of it.
\<close>

section \<open>Slots and report lines\<close>

datatype slot = Live kv | Ignored

datatype diff_line =
    Only_first cstring
  | Changed cstring cstring cstring
  | Only_second cstring cstring

fun render :: "diff_line \<Rightarrow> string" where
  "render (Only_first k) = ''< '' @ k"
| "render (Changed k v1 v2) = ''! '' @ k @ ''='' @ v1 @ '' > '' @ v2"
| "render (Only_second k v) = ''> '' @ k @ ''='' @ v"

section \<open>The C differ\<close>

text \<open>The loop of \<open>kvs_find_key\<close>: the index of the first live slot with the key.\<close>

fun find_slot :: "slot list \<Rightarrow> cstring \<Rightarrow> nat option" where
  "find_slot [] key = None"
| "find_slot (Ignored # xs) key = map_option Suc (find_slot xs key)"
| "find_slot (Live e # xs) key =
     (if kv_k e = key then Some 0 else map_option Suc (find_slot xs key))"

text \<open>\<open>kvs_find_key\<close>: its first test \<open>*kvs\<close> reads through the array pointer.\<close>

definition kvs_find_key :: "slot list option \<Rightarrow> cstring \<Rightarrow> fault + nat option" where
  "kvs_find_key kvs key =
     (case kvs of None \<Rightarrow> Inl Null_deref | Some a \<Rightarrow> Inr (find_slot a key))"

text \<open>
  The state of \<open>diff\<close>: both arrays, which it overwrites, and the lines it has
  printed. A fault ends the run and carries the lines printed before it.
\<close>

record dstate =
  kvs1 :: "slot list"
  kvs2 :: "slot list option"
  out :: "string list"

text \<open>
  One turn of the first loop (lines 192--200) at index \<open>i\<close> of the first array.
  With no match, line 194 prints \<open>< k\<close> and line 199 reads \<open>*match\<close> through the
  \<open>NULL\<close> pointer \<open>match\<close>. The other fault branches are the reads through a
  sentinel slot or a \<open>NULL\<close> array, which the lemmas show unreachable.
\<close>

definition diff_iter :: "nat \<Rightarrow> dstate \<Rightarrow> (fault \<times> string list) + dstate" where
  "diff_iter i st =
     (case kvs1 st ! i of
        Ignored \<Rightarrow> Inl (Bad_pointer, out st)
      | Live e1 \<Rightarrow>
          (case kvs_find_key (kvs2 st) (kv_k e1) of
             Inl f \<Rightarrow> Inl (f, out st)
           | Inr None \<Rightarrow> Inl (Null_deref, out st @ [render (Only_first (kv_k e1))])
           | Inr (Some j) \<Rightarrow>
               (case kvs2 st of
                  None \<Rightarrow> Inl (Null_deref, out st)
                | Some a2 \<Rightarrow>
                    (case a2 ! j of
                       Ignored \<Rightarrow> Inl (Bad_pointer, out st)
                     | Live e2 \<Rightarrow>
                         Inr \<lparr>kvs1 = (kvs1 st)[i := Ignored],
                              kvs2 = Some (a2[j := Ignored]),
                              out = out st @
                                (if kv_v e1 \<noteq> kv_v e2
                                 then [render (Changed (kv_k e1) (kv_v e1) (kv_v e2))] else [])\<rparr>))))"

text \<open>The first loop (lines 191--201): \<open>i\<close> is the position of \<open>kv1\<close>.\<close>

function diff_loop1 :: "nat \<Rightarrow> dstate \<Rightarrow> (fault \<times> string list) + dstate" where
  "diff_loop1 i st =
     (if i < length (kvs1 st) then
        (case diff_iter i st of Inl f \<Rightarrow> Inl f | Inr st' \<Rightarrow> diff_loop1 (Suc i) st')
      else Inr st)"
  by pat_completeness auto
termination
  by (relation "measure (\<lambda>(i, st). length (kvs1 st) - i)")
     (auto simp: diff_iter_def split: slot.splits option.splits sum.splits if_splits)

declare diff_loop1.simps [simp del]

text \<open>The second loop (lines 203--207): the slots of the second array not consumed.\<close>

fun diff_loop2 :: "slot list \<Rightarrow> string list \<Rightarrow> string list" where
  "diff_loop2 [] pr = pr"
| "diff_loop2 (Ignored # xs) pr = diff_loop2 xs pr"
| "diff_loop2 (Live e # xs) pr = diff_loop2 xs (pr @ [render (Only_second (kv_k e) (kv_v e))])"

text \<open>\<open>diff\<close>: the test \<open>*kv1\<close> of line 191 and \<open>*kv2\<close> of line 203 read through the arrays.\<close>

definition diff :: "slot list option \<Rightarrow> slot list option \<Rightarrow> (fault \<times> string list) + string list" where
  "diff a1 a2 =
     (case a1 of
        None \<Rightarrow> Inl (Null_deref, [])
      | Some s1 \<Rightarrow>
          (case diff_loop1 0 \<lparr>kvs1 = s1, kvs2 = a2, out = []\<rparr> of
             Inl f \<Rightarrow> Inl f
           | Inr st \<Rightarrow>
               (case kvs2 st of
                  None \<Rightarrow> Inl (Null_deref, out st)
                | Some s2 \<Rightarrow> Inr (diff_loop2 s2 (out st)))))"

section \<open>The specification of the report\<close>

text \<open>
  Spec section 4.5: each entry of the first file, in order, consumes the first
  remaining entry of the second file with its key (reporting a changed value) or is
  reported missing; the entries of the second file left over are reported last.
\<close>

fun spec_diff :: "kv list \<Rightarrow> kv list \<Rightarrow> diff_line list" where
  "spec_diff [] ys = map (\<lambda>e. Only_second (kv_k e) (kv_v e)) ys"
| "spec_diff (x # xs) ys =
     (case find (\<lambda>e. kv_k e = kv_k x) ys of
        None \<Rightarrow> Only_first (kv_k x) # spec_diff xs ys
      | Some y \<Rightarrow>
          (if kv_v x = kv_v y then [] else [Changed (kv_k x) (kv_v x) (kv_v y)]) @
          spec_diff xs (remove1 y ys))"

text \<open>
  What the C code makes of a report: it prints the lines in order, and a line
  \<open>Only_first\<close> is followed by the read through \<open>NULL\<close> of line 199.
\<close>

fun c_outcome :: "string list \<Rightarrow> diff_line list \<Rightarrow> (fault \<times> string list) + string list" where
  "c_outcome pr [] = Inr pr"
| "c_outcome pr (Only_first k # ls) = Inl (Null_deref, pr @ [render (Only_first k)])"
| "c_outcome pr (l # ls) = c_outcome (pr @ [render l]) ls"

text \<open>The entries a slot array still holds.\<close>

fun lives :: "slot list \<Rightarrow> kv list" where
  "lives [] = []"
| "lives (Ignored # xs) = lives xs"
| "lives (Live e # xs) = e # lives xs"

section \<open>Lemmas\<close>

subsection \<open>Search and the second loop\<close>


lemma find_slot_None: "find_slot a key = None \<longleftrightarrow> find (\<lambda>e. kv_k e = key) (lives a) = None"
proof (induction a)
  case (Cons s a)
  then show ?case by (cases s) auto
qed simp

lemma find_slot_Some:
  "find_slot a key = Some j \<Longrightarrow>
     j < length a \<and> (\<exists>e. a ! j = Live e \<and> find (\<lambda>e. kv_k e = key) (lives a) = Some e \<and>
                          lives (a[j := Ignored]) = remove1 e (lives a))"
proof (induction a arbitrary: j)
  case Nil
  then show ?case by simp
next
  case (Cons s a)
  show ?case
  proof (cases s)
    case Ignored
    with Cons.prems obtain j' where "j = Suc j'" "find_slot a key = Some j'" by auto
    with Cons.IH[of j'] Ignored show ?thesis by auto
  next
    case (Live e0)
    show ?thesis
    proof (cases "kv_k e0 = key")
      case True
      with Cons.prems Live show ?thesis by auto
    next
      case False
      with Cons.prems Live obtain j' where j: "j = Suc j'" "find_slot a key = Some j'" by auto
      from Cons.IH[OF j(2)] obtain e where
        e: "j' < length a" "a ! j' = Live e" "find (\<lambda>e. kv_k e = key) (lives a) = Some e"
           "lives (a[j' := Ignored]) = remove1 e (lives a)" by blast
      from e(3) have "kv_k e = key" by (auto simp: find_Some_iff)
      with False have "e0 \<noteq> e" by auto
      with e j Live False show ?thesis by auto
    qed
  qed
qed

lemma diff_loop2_lives:
  "diff_loop2 a pr = pr @ map (\<lambda>e. render (Only_second (kv_k e) (kv_v e))) (lives a)"
proof (induction a arbitrary: pr)
  case (Cons s a)
  then show ?case by (cases s) auto
qed simp

lemma c_outcome_seconds:
  "c_outcome pr (map (\<lambda>e. Only_second (kv_k e) (kv_v e)) ys) =
     Inr (pr @ map (\<lambda>e. render (Only_second (kv_k e) (kv_v e))) ys)"
  by (induction ys arbitrary: pr) auto

lemma lives_map_Live [simp]: "lives (map Live xs) = xs"
  by (induction xs) auto

lemma diff_loop1_spec:
  assumes "kvs1 st = pre @ map Live xs" "length pre = i" "kvs2 st = Some a2"
  shows "(case diff_loop1 i st of
            Inl f \<Rightarrow> Inl f
          | Inr st' \<Rightarrow> (case kvs2 st' of
                          None \<Rightarrow> Inl (Null_deref, out st')
                        | Some s2 \<Rightarrow> Inr (diff_loop2 s2 (out st'))))
         = c_outcome (out st) (spec_diff xs (lives a2))"
  using assms
proof (induction xs arbitrary: pre i st a2)
  case Nil
  then have "diff_loop1 i st = Inr st" by (subst diff_loop1.simps) simp
  with Nil.prems show ?case by (simp add: diff_loop2_lives c_outcome_seconds)
next
  case (Cons x xs)
  have il: "i < length (kvs1 st)" and at: "kvs1 st ! i = Live x"
    using Cons.prems by (auto simp: nth_append)
  have loop: "diff_loop1 i st =
      (case diff_iter i st of Inl f \<Rightarrow> Inl f | Inr st' \<Rightarrow> diff_loop1 (Suc i) st')"
    using il by (subst diff_loop1.simps) simp
  show ?case
  proof (cases "find_slot a2 (kv_k x)")
    case None
    then have "find (\<lambda>e. kv_k e = kv_k x) (lives a2) = None" by (simp add: find_slot_None)
    with None show ?thesis
      using Cons.prems(3) by (simp add: loop diff_iter_def at kvs_find_key_def)
  next
    case (Some j)
    from find_slot_Some[OF Some] obtain e where
      e: "j < length a2" "a2 ! j = Live e" "find (\<lambda>e. kv_k e = kv_k x) (lives a2) = Some e"
         "lives (a2[j := Ignored]) = remove1 e (lives a2)" by blast
    define st' where "st' = \<lparr>kvs1 = (kvs1 st)[i := Ignored], kvs2 = Some (a2[j := Ignored]),
        out = out st @ (if kv_v x \<noteq> kv_v e
                         then [render (Changed (kv_k x) (kv_v x) (kv_v e))] else [])\<rparr>"
    have it: "diff_iter i st = Inr st'"
      using Cons.prems(3) Some e by (simp add: diff_iter_def at kvs_find_key_def st'_def)
    have k1: "kvs1 st' = (pre @ [Ignored]) @ map Live xs"
      using Cons.prems by (simp add: st'_def list_update_append)
    note IH = Cons.IH[OF k1 _ , of "Suc i" "a2[j := Ignored]"]
    have "kv_k e = kv_k x" using e(3) by (auto simp: find_Some_iff)
    then show ?thesis
      using IH Cons.prems e by (auto simp: loop it st'_def)
  qed
qed

lemma c_outcome_Inr_iff:
  "c_outcome pr ls = Inr r \<longleftrightarrow> (\<forall>k. Only_first k \<notin> set ls) \<and> r = pr @ map render ls"
proof (induction pr ls rule: c_outcome.induct)
qed auto

lemma c_outcome_first:
  "\<forall>k. Only_first k \<notin> set as \<Longrightarrow>
     c_outcome pr (as @ Only_first k # bs) = Inl (Null_deref, pr @ map render as @ [''< '' @ k])"
proof (induction as arbitrary: pr)
  case (Cons a as)
  then show ?case by (cases a) auto
qed simp

lemma spec_diff_no_first:
  "(\<forall>k. Only_first k \<notin> set (spec_diff xs ys)) \<longleftrightarrow> mset (map kv_k xs) \<subseteq># mset (map kv_k ys)"
proof (induction xs arbitrary: ys)
  case Nil
  then show ?case by auto
next
  case (Cons x xs)
  show ?case
  proof (cases "find (\<lambda>e. kv_k e = kv_k x) ys")
    case None
    then have "kv_k x \<notin> set (map kv_k ys)" by (auto simp: find_None_iff)
    with None show ?thesis by (auto simp: insert_subset_eq_iff)
  next
    case (Some y)
    then have y: "y \<in> set ys" "kv_k y = kv_k x" by (auto simp: find_Some_iff)
    then have kin: "kv_k x \<in> kv_k ` set ys" by (metis image_eqI)
    have "mset (map kv_k (remove1 y ys)) = mset (map kv_k ys) - {#kv_k x#}"
      using y by (simp add: mset_remove1 image_mset_Diff)
    with Some y kin Cons.IH[of "remove1 y ys"] show ?thesis
      by (auto simp: insert_subset_eq_iff)
  qed
qed

lemma spec_diff_self: "spec_diff xs xs = []"
  by (induction xs) auto

lemma diff_loop1_no_second:
  assumes "kvs1 st = pre @ map Live xs" "length pre = i" "kvs2 st = None"
  shows "diff_loop1 i st = (if xs = [] then Inr st else Inl (Null_deref, out st))"
  using assms
  by (cases xs) (simp_all add: diff_loop1.simps diff_iter_def kvs_find_key_def nth_append)

lemma diff_Live:
  "diff (Some (map Live xs)) (Some (map Live ys)) = c_outcome [] (spec_diff xs ys)"
  using diff_loop1_spec[of "\<lparr>kvs1 = map Live xs, kvs2 = Some (map Live ys), out = []\<rparr>" "[]" xs 0]
  by (simp add: diff_def split: sum.split option.split)

text \<open>
  The differ on the arrays the loader returns: a \<open>NULL\<close> array (a file without
  entries) is read through before anything is printed.
\<close>

lemma diff_opt_spec:
  "diff (map_option (map Live) a1) (map_option (map Live) a2) =
     (case (a1, a2) of
        (Some xs, Some ys) \<Rightarrow> c_outcome [] (spec_diff xs ys)
      | _ \<Rightarrow> Inl (Null_deref, []))"
proof (cases a1)
  case (Some xs)
  show ?thesis
  proof (cases a2)
    case None
    then show ?thesis
      using Some diff_loop1_no_second[of "\<lparr>kvs1 = map Live xs, kvs2 = None, out = []\<rparr>" "[]" xs 0]
      by (simp add: diff_def)
  qed (simp add: Some diff_Live)
qed (simp add: diff_def)

lemma diff_iter_Inr:
  assumes "kvs1 st ! i = Live x" "kvs2 st = Some a2" "diff_iter i st = Inr st1"
  shows "\<exists>j e. find_slot a2 (kv_k x) = Some j \<and> a2 ! j = Live e \<and> kvs1 st1 = (kvs1 st)[i := Ignored] \<and>
           kvs2 st1 = Some (a2[j := Ignored])"
  using assms by (auto simp: diff_iter_def kvs_find_key_def split: option.splits slot.splits)

lemma diff_loop1_consumes_gen:
  assumes "kvs1 st = pre @ map Live xs" "length pre = i" "kvs2 st = Some a2"
    and "diff_loop1 i st = Inr st'"
  shows "kvs1 st' = pre @ replicate (length xs) Ignored \<and>
         (\<exists>a2'. kvs2 st' = Some a2' \<and> length a2' = length a2 \<and> mset (lives a2') \<subseteq># mset (lives a2) \<and>
                image_mset kv_k (mset (lives a2) - mset (lives a2')) = image_mset kv_k (mset xs))"
  using assms
proof (induction xs arbitrary: pre i st a2)
  case Nil
  then have "st' = st" by (simp add: diff_loop1.simps)
  with Nil.prems show ?case by simp
next
  case (Cons x xs)
  have il: "i < length (kvs1 st)" and at: "kvs1 st ! i = Live x"
    using Cons.prems(1,2) by (auto simp: nth_append)
  have unf: "diff_loop1 i st = (case diff_iter i st of Inl f \<Rightarrow> Inl f | Inr st1 \<Rightarrow> diff_loop1 (Suc i) st1)"
    using il by (subst diff_loop1.simps) simp
  obtain st1 where it: "diff_iter i st = Inr st1" and loop: "diff_loop1 (Suc i) st1 = Inr st'"
    using Cons.prems(4) unfolding unf by (cases "diff_iter i st") auto
  from diff_iter_Inr[OF at Cons.prems(3) it] obtain j e where
    j: "find_slot a2 (kv_k x) = Some j" "a2 ! j = Live e" and
    k1: "kvs1 st1 = (kvs1 st)[i := Ignored]" and k2: "kvs2 st1 = Some (a2[j := Ignored])" by blast
  from find_slot_Some[OF j(1)] j(2) have jl: "j < length a2" and
    fe: "find (\<lambda>e. kv_k e = kv_k x) (lives a2) = Some e" and
    rm: "lives (a2[j := Ignored]) = remove1 e (lives a2)" by auto
  have ke: "kv_k e = kv_k x" and ein: "e \<in> set (lives a2)" using fe by (auto simp: find_Some_iff nth_mem)
  have k1': "kvs1 st1 = (pre @ [Ignored]) @ map Live xs"
    using k1 Cons.prems(1,2) by (simp add: list_update_append)
  from Cons.IH[OF k1' _ k2 loop] Cons.prems(2) obtain a2' where
    r1: "kvs1 st' = (pre @ [Ignored]) @ replicate (length xs) Ignored" and
    a2': "kvs2 st' = Some a2'" "length a2' = length (a2[j := Ignored])"
      "mset (lives a2') \<subseteq># mset (remove1 e (lives a2))"
      "image_mset kv_k (mset (remove1 e (lives a2)) - mset (lives a2')) = image_mset kv_k (mset xs)"
    by (auto simp: rm)
  define M where "M = mset (lives a2)"
  define N where "N = mset (lives a2')"
  have ein': "e \<in># M" using ein by (simp add: M_def)
  have sub: "N \<subseteq># M - {#e#}" using a2'(3) by (simp add: M_def N_def mset_remove1)
  have ms: "M = {#e#} + (M - {#e#})" using insert_DiffM[OF ein'] by simp
  have "M - N = {#e#} + ((M - {#e#}) - N)"
    using multiset_diff_union_assoc[OF sub, of "{#e#}"] ms by simp
  then have "image_mset kv_k (M - N) = image_mset kv_k (mset (x # xs))"
    using a2'(4) ke by (simp add: M_def N_def mset_remove1)
  moreover have "N \<subseteq># M"
    using sub ms by (metis subset_mset.add_increasing subset_mset.zero_le subset_mset.order_trans)
  ultimately have "image_mset kv_k (mset (lives a2) - mset (lives a2')) = image_mset kv_k (mset (x # xs))"
    and "mset (lives a2') \<subseteq># mset (lives a2)" by (simp_all add: M_def N_def)
  then show ?case using r1 a2' by (auto simp: replicate_append_same)
qed

lemma c_outcome_Inl: "c_outcome pr ls = Inl (f, r) \<Longrightarrow> f = Null_deref"
  by (induction pr ls rule: c_outcome.induct) auto

lemma spec_diff_seconds:
  "\<forall>k. Only_first k \<notin> set (spec_diff xs ys) \<Longrightarrow>
     length (filter (\<lambda>l. take 2 l = ''> '') (map render (spec_diff xs ys))) = length ys - length xs \<and>
     length (spec_diff xs ys) \<le> length ys"
proof (induction xs arbitrary: ys)
  case Nil
  then show ?case by (simp add: comp_def)
next
  case (Cons x xs)
  show ?case
  proof (cases "find (\<lambda>e. kv_k e = kv_k x) ys")
    case None
    then have "Only_first (kv_k x) \<in> set (spec_diff (x # xs) ys)" by simp
    with Cons.prems show ?thesis by blast
  next
    case (Some y)
    then have "y \<in> set ys" by (auto simp: find_Some_iff nth_mem)
    then have ly: "length ys = Suc (length (remove1 y ys))"
      by (simp add: length_remove1) (cases ys; auto)
    have "\<forall>k. Only_first k \<notin> set (spec_diff xs (remove1 y ys))" using Cons.prems Some by simp
    from Cons.IH[OF this] Some show ?thesis by (simp add: ly)
  qed
qed

lemma spec_diff_perm:
  "distinct (map kv_k xs) \<Longrightarrow> mset xs = mset ys \<Longrightarrow> spec_diff xs ys = []"
proof (induction xs arbitrary: ys)
  case Nil
  then show ?case by simp
next
  case (Cons x xs)
  have xin: "x \<in> set ys" using Cons.prems(2) by (metis list.set_intros(1) set_mset_mset)
  then obtain y where fy: "find (\<lambda>e. kv_k e = kv_k x) ys = Some y"
    by (metis (mono_tags) find_None_iff option.exhaust)
  then have yin: "y \<in> set ys" and ky: "kv_k y = kv_k x" by (auto simp: find_Some_iff nth_mem)
  have "y \<in> set (x # xs)" using yin Cons.prems(2) by (metis set_mset_mset)
  moreover have "kv_k x \<notin> kv_k ` set xs" using Cons.prems(1) by simp
  ultimately have yx: "y = x" using ky by (metis image_eqI set_ConsD)
  have e: "mset ys = add_mset x (mset xs)" using Cons.prems(2) by simp
  have "mset xs = mset (remove1 x ys)" by (simp add: mset_remove1 e)
  with Cons.IH Cons.prems(1) fy yx show ?case by simp
qed

section \<open>Properties of the differ\<close>

text \<open>
  C4: on two non-empty files \<open>diff\<close> returns normally exactly when every key of the
  first file (with multiplicity) occurs in the second, and then it has printed the
  spec's report, in order.
\<close>

theorem diff_ok_iff:
  "diff (Some (map Live xs)) (Some (map Live ys)) = Inr r \<longleftrightarrow>
     mset (map kv_k xs) \<subseteq># mset (map kv_k ys) \<and> r = map render (spec_diff xs ys)"
  by (simp add: diff_Live c_outcome_Inr_iff spec_diff_no_first)

text \<open>
  C5: the first key of the first file missing from the second is printed as
  \<open>< k\<close> after the report lines before it, and then \<open>diff\<close> reads through the
  NULL pointer \<open>match\<close> (line 199): undefined behaviour.
\<close>

theorem diff_missing_key:
  assumes "spec_diff xs ys = as @ Only_first k # bs" "\<forall>k'. Only_first k' \<notin> set as"
  shows "diff (Some (map Live xs)) (Some (map Live ys)) =
           Inl (Null_deref, map render as @ [''< '' @ k])"
  using assms by (simp add: diff_Live c_outcome_first)

theorem diff_missing_key_witness:
  "diff (Some [Live \<lparr>kv_k = ''a'', kv_v = ''1''\<rparr>, Live \<lparr>kv_k = ''c'', kv_v = ''1''\<rparr>])
        (Some [Live \<lparr>kv_k = ''a'', kv_v = ''2''\<rparr>, Live \<lparr>kv_k = ''b'', kv_v = ''3''\<rparr>]) =
     Inl (Null_deref, [''! a=1 > 2'', ''< c''])"
  using diff_missing_key[of "[\<lparr>kv_k = ''a'', kv_v = ''1''\<rparr>, \<lparr>kv_k = ''c'', kv_v = ''1''\<rparr>]"
      "[\<lparr>kv_k = ''a'', kv_v = ''2''\<rparr>, \<lparr>kv_k = ''b'', kv_v = ''3''\<rparr>]"
      "[Changed ''a'' ''1'' ''2'']" "''c''" "[Only_second ''b'' ''3'']"]
  by simp

text \<open>
  C22: diffing the entries of a file against themselves prints nothing and returns normally.
\<close>

theorem diff_self: "diff (Some (map Live xs)) (Some (map Live xs)) = Inr []"
  by (simp add: diff_Live spec_diff_self)

text \<open>
  C8: the invariant of the mark-as-consumed technique: when the first loop of \<open>diff\<close>
  completes, every slot of the first array is \<open>KV_IGNORE\<close>, no write went outside the
  arrays, and the entries it consumed from the second array are a sub-multiset of it
  with exactly the keys of the first file, one per entry.
\<close>

theorem diff_loop1_consumes:
  assumes "diff_loop1 0 \<lparr>kvs1 = map Live xs, kvs2 = Some (map Live ys), out = []\<rparr> = Inr st"
  shows "set (kvs1 st) \<subseteq> {Ignored} \<and> length (kvs1 st) = length xs \<and>
         (\<exists>a2. kvs2 st = Some a2 \<and> length a2 = length ys \<and> mset (lives a2) \<subseteq># mset ys \<and>
               image_mset kv_k (mset ys - mset (lives a2)) = image_mset kv_k (mset xs))"
  using diff_loop1_consumes_gen[of _ "[]" xs 0 "map Live ys", OF _ _ _ assms] by auto

theorem diff_loop1_consumes_witness:
  "diff_loop1 0 \<lparr>kvs1 = map Live [\<lparr>kv_k = ''a'', kv_v = ''1''\<rparr>],
        kvs2 = Some (map Live [\<lparr>kv_k = ''b'', kv_v = ''2''\<rparr>, \<lparr>kv_k = ''a'', kv_v = ''3''\<rparr>]), out = []\<rparr> =
      Inr \<lparr>kvs1 = [Ignored], kvs2 = Some [Live \<lparr>kv_k = ''b'', kv_v = ''2''\<rparr>, Ignored],
           out = [''! a=1 > 3'']\<rparr> \<and>
   image_mset kv_k (mset [\<lparr>kv_k = ''b'', kv_v = ''2''\<rparr>, \<lparr>kv_k = ''a'', kv_v = ''3''\<rparr>] -
                    mset (lives [Live \<lparr>kv_k = ''b'', kv_v = ''2''\<rparr>, Ignored])) = {#''a''#}"
proof -
  have d: "diff_loop1 0 \<lparr>kvs1 = map Live [\<lparr>kv_k = ''a'', kv_v = ''1''\<rparr>],
        kvs2 = Some (map Live [\<lparr>kv_k = ''b'', kv_v = ''2''\<rparr>, \<lparr>kv_k = ''a'', kv_v = ''3''\<rparr>]), out = []\<rparr> =
      Inr \<lparr>kvs1 = [Ignored], kvs2 = Some [Live \<lparr>kv_k = ''b'', kv_v = ''2''\<rparr>, Ignored],
           out = [''! a=1 > 3'']\<rparr>" by code_simp
  show ?thesis using d diff_loop1_consumes[OF d] by simp
qed

text \<open>
  C20: when \<open>diff\<close> returns normally it prints at most one line per entry of the second
  file, and exactly as many lines \<open>> k=v\<close> as the second file has entries more than the
  first: each entry of the first file consumes one entry of the second.
\<close>

theorem diff_output_count:
  "diff (Some (map Live xs)) (Some (map Live ys)) = Inr r \<Longrightarrow>
     length r \<le> length ys \<and> length (filter (\<lambda>l. take 2 l = ''> '') r) = length ys - length xs"
  using spec_diff_seconds[of xs ys] by (auto simp: diff_Live c_outcome_Inr_iff)

theorem diff_output_count_witness:
  "diff (Some (map Live [\<lparr>kv_k = ''a'', kv_v = ''1''\<rparr>]))
        (Some (map Live [\<lparr>kv_k = ''a'', kv_v = ''2''\<rparr>, \<lparr>kv_k = ''b'', kv_v = ''3''\<rparr>])) =
     Inr [''! a=1 > 2'', ''> b=3''] \<and>
   length (filter (\<lambda>l. take 2 l = ''> '') [''! a=1 > 2'', ''> b=3'']) = 2 - 1"
proof -
  have d: "diff (Some (map Live [\<lparr>kv_k = ''a'', kv_v = ''1''\<rparr>]))
        (Some (map Live [\<lparr>kv_k = ''a'', kv_v = ''2''\<rparr>, \<lparr>kv_k = ''b'', kv_v = ''3''\<rparr>])) =
     Inr [''! a=1 > 2'', ''> b=3'']" by code_simp
  show ?thesis using d diff_output_count[OF d] by simp
qed

text \<open>
  C9: on the arrays the loader returns (entries only, or \<open>NULL\<close>), the only undefined
  behaviour \<open>diff\<close> can reach is a read through \<open>NULL\<close>: it never dereferences the
  sentinel \<open>KV_IGNORE\<close> it writes.
\<close>

theorem diff_fault_null:
  "diff (map_option (map Live) a1) (map_option (map Live) a2) = Inl (f, pr) \<Longrightarrow> f = Null_deref"
  by (auto simp: diff_opt_spec dest: c_outcome_Inl split: option.splits)

theorem diff_fault_null_witness:
  "\<exists>f pr. diff (map_option (map Live) (Some [\<lparr>kv_k = ''c'', kv_v = ''1''\<rparr>]))
                  (map_option (map Live) (Some [\<lparr>kv_k = ''a'', kv_v = ''2''\<rparr>])) = Inl (f, pr) \<and>
          f = Null_deref"
proof -
  have d: "diff (map_option (map Live) (Some [\<lparr>kv_k = ''c'', kv_v = ''1''\<rparr>]))
             (map_option (map Live) (Some [\<lparr>kv_k = ''a'', kv_v = ''2''\<rparr>])) = Inl (Null_deref, [''< c''])"
    by code_simp
  show ?thesis using diff_fault_null[OF d] d by blast
qed

text \<open>
  C21: for files with distinct keys the order of the entries does not matter: two
  files with the same entries in any order compare equal, with no output.
\<close>

theorem diff_permutation:
  "distinct (map kv_k xs) \<Longrightarrow> mset xs = mset ys \<Longrightarrow>
     diff (Some (map Live xs)) (Some (map Live ys)) = Inr []"
  by (simp add: diff_Live spec_diff_perm)

theorem diff_permutation_witness:
  "diff (Some (map Live [\<lparr>kv_k = ''a'', kv_v = ''1''\<rparr>, \<lparr>kv_k = ''b'', kv_v = ''2''\<rparr>]))
        (Some (map Live [\<lparr>kv_k = ''b'', kv_v = ''2''\<rparr>, \<lparr>kv_k = ''a'', kv_v = ''1''\<rparr>])) = Inr []"
  by (rule diff_permutation) (simp_all add: add_mset_commute)

end
