(* ===== verification/Cli.thy ===== *)
theory Cli
  imports Loader Differ
begin

text \<open>
  The command line of \<open>src/diffkv.c\<close>: \<open>file_from_arg\<close> (lines 155--170) and
  \<open>main\<close> (lines 210--235). The process's environment is a \<open>world\<close>: the standard
  input stream and, for each path, what \<open>fopen(path, "rb")\<close> gives (a fresh stream, or
  the reason \<open>perror\<close> prints). A run of \<open>main\<close> is the lines it writes to the standard
  output and to the standard error and how it ends: an exit status, or undefined
  behaviour with the fault that causes it.
\<close>

section \<open>The environment and a run\<close>

record world =
  w_stdin :: stream
  w_files :: "string \<Rightarrow> string + stream"

text \<open>The \<open>FILE *\<close> that \<open>file_from_arg\<close> returns: \<open>stdin\<close> or a freshly opened file.\<close>

datatype handle = H_stdin | H_file stream

datatype status = Exit_status nat | Undefined_behaviour fault

record run =
  r_stdout :: "string list"
  r_stderr :: "string list"
  r_status :: status

section \<open>Opening and loading a file\<close>

text \<open>
  \<open>file_from_arg\<close>: the argument \<open>-\<close> is the standard input; otherwise the file is
  opened, and a failure is fatal (\<open>perror(arg)\<close>, \<open>exit(1)\<close>).
\<close>

definition file_from_arg :: "string \<Rightarrow> world \<Rightarrow> error + handle" where
  "file_from_arg arg w =
     (if arg = ''-'' then Inr H_stdin
      else case w_files w arg of
             Inl r \<Rightarrow> Inl (Open_error arg r)
           | Inr s \<Rightarrow> Inr (H_file s))"

text \<open>
  \<open>kvs_from_file(file_from_arg(arg))\<close> of lines 226 and 229. What the load leaves in
  the standard input stream is written back to the world, so a second load of \<open>-\<close>
  sees it; a file stream is never read again (nor closed).
\<close>

definition load_arg :: "string \<Rightarrow> world \<Rightarrow> error + (kv list option \<times> world)" where
  "load_arg arg w =
     (case file_from_arg arg w of
        Inl e \<Rightarrow> Inl e
      | Inr H_stdin \<Rightarrow>
          (case kvs_from_file (w_stdin w) of
             Inl e \<Rightarrow> Inl e
           | Inr (kvs, s') \<Rightarrow> Inr (kvs, w\<lparr>w_stdin := s'\<rparr>))
      | Inr (H_file s) \<Rightarrow>
          (case kvs_from_file s of
             Inl e \<Rightarrow> Inl e
           | Inr (kvs, _) \<Rightarrow> Inr (kvs, w)))"

section \<open>Diagnostics\<close>

text \<open>
  The fatal errors as \<open>main\<close>'s process ends with them: the diagnostic of
  \<open>kvs_from_file\<close> (line 122), of \<open>getln\<close> (\<open>perror("file read error")\<close>, line 39) or
  of \<open>file_from_arg\<close> (\<open>perror(arg)\<close>, line 165), each followed by \<open>exit(1)\<close>;
  undefined behaviour met while loading ends the run with no diagnostic.
\<close>

fun fatal :: "error \<Rightarrow> run" where
  "fatal (Missing_eq ln) =
     \<lparr>r_stdout = [], r_stderr = [''diffkv: missing '' @ [CHR 0x27, CHR ''='', CHR 0x27] @ '' in '' @
        [CHR 0x22] @ ln @ [CHR 0x22]], r_status = Exit_status 1\<rparr>"
| "fatal (Read_error r) =
     \<lparr>r_stdout = [], r_stderr = [''file read error: '' @ r], r_status = Exit_status 1\<rparr>"
| "fatal (Open_error p r) =
     \<lparr>r_stdout = [], r_stderr = [p @ '': '' @ r], r_status = Exit_status 1\<rparr>"
| "fatal (Undefined f) = \<lparr>r_stdout = [], r_stderr = [], r_status = Undefined_behaviour f\<rparr>"

text \<open>The usage error: a diagnostic, the usage line (line 233) and status 1.\<close>

definition usage :: "string \<Rightarrow> run" where
  "usage msg = \<lparr>r_stdout = [], r_stderr = [msg, ''usage: diffkv file1 file2''], r_status = Exit_status 1\<rparr>"

section \<open>\<open>main\<close>\<close>

text \<open>
  \<open>main\<close> on the arguments after the program name (\<open>argv + 1\<close>, \<open>argc - 1\<close> of them):
  the argument count checks of lines 218--225, the two loads in order, then \<open>diff\<close>.
\<close>

definition main :: "string list \<Rightarrow> world \<Rightarrow> run" where
  "main args w =
     (if length args = 0 \<or> length args - 1 = 0 then usage ''diffkv: missing file argument(s)''
      else if length args - 2 \<noteq> 0 then
        usage (''diffkv: extra file argument(s): '' @ [CHR 0x22] @ args ! 2 @ [CHR 0x22])
      else
        (case load_arg (args ! 0) w of
           Inl e \<Rightarrow> fatal e
         | Inr (a1, w1) \<Rightarrow>
             (case load_arg (args ! 1) w1 of
                Inl e \<Rightarrow> fatal e
              | Inr (a2, w2) \<Rightarrow>
                  (case diff (map_option (map Live) a1) (map_option (map Live) a2) of
                     Inl (f, pr) \<Rightarrow> \<lparr>r_stdout = pr, r_stderr = [], r_status = Undefined_behaviour f\<rparr>
                   | Inr pr \<Rightarrow> \<lparr>r_stdout = pr, r_stderr = [], r_status = Exit_status 0\<rparr>))))"

section \<open>Lemmas\<close>

lemma load_arg_file:
  assumes "arg \<noteq> ''-''" "w_files w arg = Inr s" "\<not> eof_flag s" "\<not> err_flag s"
  shows "load_arg arg w =
           (case load_spec (data s) (rd_fail s) of
              Inl e \<Rightarrow> Inl e
            | Inr kvs \<Rightarrow> Inr (if kvs = [] then None else Some kvs, w))"
  using assms
  by (simp add: load_arg_def file_from_arg_def kvs_from_file_spec split: sum.split)

lemma load_arg_stdin:
  assumes "\<not> eof_flag (w_stdin w)" "\<not> err_flag (w_stdin w)"
  shows "load_arg ''-'' w =
           (case load_spec (data (w_stdin w)) (rd_fail (w_stdin w)) of
              Inl e \<Rightarrow> Inl e
            | Inr kvs \<Rightarrow> Inr (if kvs = [] then None else Some kvs,
                             w\<lparr>w_stdin := w_stdin w\<lparr>data := [], eof_flag := True\<rparr>\<rparr>))"
  using assms
  by (simp add: load_arg_def file_from_arg_def kvs_from_file_spec split: sum.split)

lemma load_arg_stdin_eof:
  "eof_flag (w_stdin w) \<Longrightarrow> \<not> err_flag (w_stdin w) \<Longrightarrow> load_arg ''-'' w = Inr (None, w)"
  by (simp add: load_arg_def file_from_arg_def kvs_from_file_at_eof)

lemma main_loaded:
  "load_arg pa w = Inr (a1, w1) \<Longrightarrow> load_arg pb w1 = Inr (a2, w2) \<Longrightarrow>
     main [pa, pb] w =
       (case diff (map_option (map Live) a1) (map_option (map Live) a2) of
          Inl (f, pr) \<Rightarrow> \<lparr>r_stdout = pr, r_stderr = [], r_status = Undefined_behaviour f\<rparr>
        | Inr pr \<Rightarrow> \<lparr>r_stdout = pr, r_stderr = [], r_status = Exit_status 0\<rparr>)"
  by (simp add: main_def)

lemma main_files:
  assumes "pa \<noteq> ''-''" "w_files w pa = Inr sa" "\<not> eof_flag sa" "\<not> err_flag sa"
    and "pb \<noteq> ''-''" "w_files w pb = Inr sb" "\<not> eof_flag sb" "\<not> err_flag sb"
    and "load_spec (data sa) (rd_fail sa) = Inr xs" "load_spec (data sb) (rd_fail sb) = Inr ys"
  shows "main [pa, pb] w =
           (case diff (map_option (map Live) (if xs = [] then None else Some xs))
                      (map_option (map Live) (if ys = [] then None else Some ys)) of
              Inl (f, pr) \<Rightarrow> \<lparr>r_stdout = pr, r_stderr = [], r_status = Undefined_behaviour f\<rparr>
            | Inr pr \<Rightarrow> \<lparr>r_stdout = pr, r_stderr = [], r_status = Exit_status 0\<rparr>)"
proof -
  let ?a1 = "if xs = [] then None else Some xs" and ?a2 = "if ys = [] then None else Some ys"
  have l1: "load_arg pa w = Inr (?a1, w)" using assms(1-4,9) by (simp add: load_arg_file)
  have l2: "load_arg pb w = Inr (?a2, w)" using assms(5-8,10) by (simp add: load_arg_file)
  show ?thesis using main_loaded[OF l1 l2] .
qed

section \<open>Properties of a run\<close>

text \<open>
  C18: with other than two file arguments \<open>main\<close> prints the matching diagnostic and
  the usage line to the standard error and exits with status 1.
\<close>

theorem main_usage:
  "length args \<noteq> 2 \<Longrightarrow>
     main args w =
       usage (if length args < 2 then ''diffkv: missing file argument(s)''
              else ''diffkv: extra file argument(s): '' @ [CHR 0x22] @ args ! 2 @ [CHR 0x22])"
  by (simp add: main_def)

theorem main_usage_witness:
  "length [''a'', ''b'', ''c''] \<noteq> 2 \<and>
   main [''a'', ''b'', ''c''] \<lparr>w_stdin = \<lparr>data = [], eof_flag = False, err_flag = False, rd_fail = None\<rparr>,
      w_files = (\<lambda>p. Inl ''No such file or directory'')\<rparr> =
     usage (''diffkv: extra file argument(s): '' @ [CHR 0x22] @ ''c'' @ [CHR 0x22])"
  using main_usage[of "[''a'', ''b'', ''c'']"] by simp

text \<open>
  C17: a fatal error while loading the first file ends the run with its diagnostic
  before the second argument is looked at (even a second file that cannot be opened).
\<close>

theorem main_first_fails:
  assumes "pa \<noteq> ''-''" "w_files w pa = Inr sa" "\<not> eof_flag sa" "\<not> err_flag sa"
    and "load_spec (data sa) (rd_fail sa) = Inl e"
  shows "main [pa, pb] w = fatal e"
  using assms by (simp add: main_def load_arg_file)

theorem main_first_fails_witness:
  "main [''a.conf'', ''b.conf'']
     \<lparr>w_stdin = \<lparr>data = [], eof_flag = False, err_flag = False, rd_fail = None\<rparr>,
      w_files = (\<lambda>p. if p = ''a.conf'' then Inr \<lparr>data = ''key value\<newline>'', eof_flag = False, err_flag = False, rd_fail = None\<rparr>
                     else Inl ''No such file or directory'')\<rparr> =
   fatal (Missing_eq ''key value'')"
proof -
  have l: "load_spec ''key value\<newline>'' None = Inl (Missing_eq ''key value'')" by code_simp
  show ?thesis using main_first_fails[where pa = "''a.conf''"] l by simp
qed

text \<open>
  C19: a first file that cannot be opened ends the run with \<open>perror\<close>'s
  diagnostic naming the path, and status 1.
\<close>

theorem main_open_fails:
  "pa \<noteq> ''-'' \<Longrightarrow> w_files w pa = Inl r \<Longrightarrow>
     main [pa, pb] w = \<lparr>r_stdout = [], r_stderr = [pa @ '': '' @ r], r_status = Exit_status 1\<rparr>"
  by (simp add: main_def load_arg_def file_from_arg_def)

theorem main_open_fails_witness:
  "main [''a.conf'', ''b.conf'']
     \<lparr>w_stdin = \<lparr>data = [], eof_flag = False, err_flag = False, rd_fail = None\<rparr>,
      w_files = (\<lambda>p. Inl ''No such file or directory'')\<rparr> =
   \<lparr>r_stdout = [], r_stderr = [''a.conf: No such file or directory''], r_status = Exit_status 1\<rparr>"
  using main_open_fails[of "''a.conf''"] by simp

end
