(* ===== verification/Spec2Isabelle.thy ===== *)
theory Spec2Isabelle
  imports Cli
begin

text \<open>
  \<^bold>\<open>diffkv\<close> (\<open>src/diffkv.c\<close>) compares two files of \<open>key = value\<close> lines and prints
  the differences. The program is one pipeline, and the development has one theory per
  stage, each importing the stages it calls:

  \<^item> \<open>Prelude\<close>: C buffers and C strings as \<open>char list\<close>, \<open>isspace\<close> of the C locale,
    reading a buffer as a C string (\<open>cstr\<close>), the undefined-behaviour faults
    (\<open>fault\<close>: a read through \<open>NULL\<close>, past either end of a heap block, or through
    the sentinel \<open>KV_IGNORE\<close>) and the program's fatal errors (\<open>error\<close>). Every
    operation that can fail returns \<open>error + _\<close> or \<open>fault + _\<close>.
  \<^item> \<open>Reader\<close>: a \<open>FILE\<close> as the record \<open>stream\<close> (remaining bytes, end-of-file and
    error indicators, and whether the device ends in end of file or a read error);
    \<open>fgetc\<close> with the C99 sticky end-of-file indicator; \<open>getln\<close> (lines 21--47) as
    \<open>getln_loop\<close> and \<open>getln\<close>.
  \<^item> \<open>Classifier\<close>: \<open>line_type\<close>, \<open>getlntype\<close> (lines 49--64) and \<open>getnonwsln\<close>
    (lines 66--83).
  \<^item> \<open>Parser\<close>: the loop body of \<open>kvs_from_file\<close> (lines 108--144) as \<open>parse_kv\<close>,
    a pointer walk over the line's heap buffer (\<open>scan_fwd\<close>, \<open>scan_back\<close>,
    \<open>strchr\<close>) that writes NUL terminators into it; a read outside the buffer is a
    fault. \<open>parse_spec\<close> is the same parser on lists.
  \<^item> \<open>Loader\<close>: \<open>kvs_from_file\<close> (lines 85--153) as \<open>kvs_loop\<close> and
    \<open>kvs_from_file\<close>; \<open>load_spec\<close> is the list-level load (split at newlines, keep
    the text lines, parse each).
  \<^item> \<open>Differ\<close>: the \<open>NULL\<close>-terminated pointer arrays as \<open>slot list option\<close>,
    \<open>kvs_find_key\<close> (lines 172--182) and \<open>diff\<close> (lines 184--208) as
    \<open>diff_iter\<close>, \<open>diff_loop1\<close>, \<open>diff_loop2\<close>, \<open>diff\<close> over the state record
    \<open>dstate\<close> (both arrays, which \<open>diff\<close> overwrites with \<open>KV_IGNORE\<close>, and the
    lines printed). \<open>spec_diff\<close> is the report spec section 4.5 describes and
    \<open>c_outcome\<close> what the C code makes of a report.
  \<^item> \<open>Cli\<close>: the process environment as \<open>world\<close> (standard input and what
    \<open>fopen\<close> gives for each path), \<open>file_from_arg\<close> (lines 155--170), \<open>load_arg\<close>
    (lines 226 and 229), the diagnostics \<open>fatal\<close> and \<open>usage\<close>, and \<open>main\<close>
    (lines 210--235), whose result is a \<open>run\<close>: standard output lines, standard
    error lines, and an exit status or undefined behaviour.

  \<^bold>\<open>What is proved.\<close> Per component, in the theory named:
  \<^item> \<open>Reader\<close>: \<open>getln\<close> returns the bytes before the first newline and consumes it,
    or the last bytes at end of input, or the read error (\<open>getln_spec\<close>); an empty
    line and the end of input both give \<open>NULL\<close>.
  \<^item> \<open>Classifier\<close>: \<open>getlntype\<close> classifies a line by its first non-whitespace byte
    (\<open>getlntype_classifies\<close>).
  \<^item> \<open>Parser\<close>: the pointer-level parser computes the list-level one on every line
    without NUL (\<open>parse_kv_eq_spec\<close>); from that, the round trip of a padded
    \<open>key = value\<close> line (\<open>parse_kv_roundtrip\<close>, which also shows an empty key is
    accepted), the well-formedness of every parsed entry (\<open>parse_kv_wf\<close>), success
    exactly on lines with \<open>=\<close> (\<open>parse_kv_ok_iff\<close>), and the two failures of a
    line without \<open>=\<close>: the diagnostic, or the overread of line 115
    (\<open>parse_kv_no_eq\<close>).
  \<^item> \<open>Loader\<close>: \<open>getnonwsln\<close> skips the lines that are not text and returns the
    first text line (\<open>getnonwsln_first_text\<close>), and its loop ends at end of input
    when no text line is left (\<open>getnonwsln_no_text\<close>); \<open>kvs_from_file\<close> on a fresh
    stream computes \<open>load_spec\<close> (\<open>kvs_from_file_refines\<close>), by induction on the
    bytes left.
  \<^item> \<open>Differ\<close>: \<open>diff\<close> on two entry arrays is \<open>c_outcome\<close> of \<open>spec_diff\<close>
    (\<open>diff_Live\<close>, by induction over the first loop with the invariant that the
    live slots of the second array are what the spec has left); it returns exactly
    when the keys of the first file are a sub-multiset of those of the second
    (\<open>diff_ok_iff\<close>); a missing key is printed and then read through \<open>NULL\<close>
    (\<open>diff_missing_key\<close>); the mark-as-consumed invariant (\<open>diff_loop1_consumes\<close>);
    no read through the sentinel (\<open>diff_fault_null\<close>); on a normal return at most
    one line per entry of the second file, and exactly one \<open>> k=v\<close> line per entry of
    the second file left over after each entry of the first has consumed one
    (\<open>diff_output_count\<close>); files with distinct keys compare equal in any order
    (\<open>diff_permutation\<close>) and a file equals itself (\<open>diff_self\<close>).
  \<^item> \<open>Cli\<close>: the usage errors (\<open>main_usage\<close>), an unopenable first file
    (\<open>main_open_fails\<close>), and a load error of the first file reported before the
    second argument is used (\<open>main_first_fails\<close>).
  \<^item> Here, composing all stages: \<open>main\<close> on two files prints the report of their
    entries (\<open>main_two_files\<close>) and exits 0 exactly when both files have entries
    and the keys of the first are contained, with multiplicity, in those of the
    second (\<open>main_ok_iff\<close>); \<open>diffkv - -\<close> ends in undefined behaviour
    (\<open>main_stdin_twice\<close>).

  \<^bold>\<open>Loops and termination.\<close> Every loop of the program is a \<open>function\<close> with a
  termination proof by a measure: the byte scans by the distance to the end of the
  buffer, the read loops by the bytes left in the stream, the diff loop by the slots
  left. No fuel is needed: every loop of \<open>diffkv\<close> ends on every input, and the
  theorems about results state them as equations, not as conditional correctness.

  \<^bold>\<open>Not modelled.\<close> Allocation (\<open>malloc\<close>, \<open>realloc\<close>, \<open>free\<close>) and the
  \<open>_Exit(2)\<close> on its failure: memory is unbounded in the model, and the unchecked
  \<open>realloc\<close> of line 44 is recorded as a finding only. The buffering of the standard
  output: a run's output is the lines \<open>printf\<close> was called with, also when the run
  then ends in undefined behaviour. Bytes above 127 passed to \<open>isspace\<close> as negative
  \<open>char\<close> values: \<open>isspace\<close> is modelled on the byte value. The \<open>FILE\<close> objects of
  named files are never read twice and never closed, so they are not part of the
  world's state after a load. \<open>main\<close> is modelled on the arguments after the program name, so a
  process started with \<open>argc == 0\<close> (no \<open>argv[0]\<close>), where line 218 sees \<open>-1\<close>, is
  outside the model.
\<close>

section \<open>Properties of whole runs\<close>

text \<open>
  C1: end to end, on two named files that open and load: a file without entries
  makes \<open>diff\<close> read through its NULL array (no output); otherwise the run prints the
  spec's report of the two entry sequences and exits 0, except that the first key of
  the first file missing from the second is printed and then read through NULL.
\<close>

theorem main_two_files:
  assumes "pa \<noteq> ''-''" "w_files w pa = Inr sa" "\<not> eof_flag sa" "\<not> err_flag sa"
    and "pb \<noteq> ''-''" "w_files w pb = Inr sb" "\<not> eof_flag sb" "\<not> err_flag sb"
    and "load_spec (data sa) (rd_fail sa) = Inr xs" "load_spec (data sb) (rd_fail sb) = Inr ys"
  shows "main [pa, pb] w =
           (if xs = [] \<or> ys = [] then
              \<lparr>r_stdout = [], r_stderr = [], r_status = Undefined_behaviour Null_deref\<rparr>
            else case c_outcome [] (spec_diff xs ys) of
              Inl (f, pr) \<Rightarrow> \<lparr>r_stdout = pr, r_stderr = [], r_status = Undefined_behaviour f\<rparr>
            | Inr pr \<Rightarrow> \<lparr>r_stdout = pr, r_stderr = [], r_status = Exit_status 0\<rparr>)"
  using main_files[OF assms] diff_opt_spec[of "if xs = [] then None else Some xs"
      "if ys = [] then None else Some ys"]
  by (auto split: sum.split)

theorem main_two_files_witness:
  "main [''a.conf'', ''b.conf'']
     \<lparr>w_stdin = \<lparr>data = [], eof_flag = False, err_flag = False, rd_fail = None\<rparr>,
      w_files = (\<lambda>p. if p = ''a.conf'' then Inr \<lparr>data = ''x=1\<newline># c\<newline>y = 2 \<newline>'', eof_flag = False, err_flag = False, rd_fail = None\<rparr>
                     else if p = ''b.conf'' then Inr \<lparr>data = ''x=1\<newline>y=3\<newline>z=3\<newline>'', eof_flag = False, err_flag = False, rd_fail = None\<rparr>
                     else Inl ''No such file or directory'')\<rparr> =
   \<lparr>r_stdout = [''! y=2 > 3'', ''> z=3''], r_stderr = [], r_status = Exit_status 0\<rparr>"
proof -
  have l1: "load_spec ''x=1\<newline># c\<newline>y = 2 \<newline>'' None =
      Inr [\<lparr>kv_k = ''x'', kv_v = ''1''\<rparr>, \<lparr>kv_k = ''y'', kv_v = ''2''\<rparr>]" by code_simp
  have l2: "load_spec ''x=1\<newline>y=3\<newline>z=3\<newline>'' None =
      Inr [\<lparr>kv_k = ''x'', kv_v = ''1''\<rparr>, \<lparr>kv_k = ''y'', kv_v = ''3''\<rparr>, \<lparr>kv_k = ''z'', kv_v = ''3''\<rparr>]" by code_simp
  show ?thesis
    using main_two_files[where pa = "''a.conf''" and pb = "''b.conf''"] l1 l2 by simp
qed

text \<open>
  C3: on two named files that open and load, \<open>diffkv\<close> exits with status 0 exactly
  when both files have entries and every key of the first file (with multiplicity)
  occurs in the second; its output is then the spec's report.
\<close>

theorem main_ok_iff:
  assumes "pa \<noteq> ''-''" "w_files w pa = Inr sa" "\<not> eof_flag sa" "\<not> err_flag sa"
    and "pb \<noteq> ''-''" "w_files w pb = Inr sb" "\<not> eof_flag sb" "\<not> err_flag sb"
    and "load_spec (data sa) (rd_fail sa) = Inr xs" "load_spec (data sb) (rd_fail sb) = Inr ys"
  shows "(r_status (main [pa, pb] w) = Exit_status 0 \<longleftrightarrow>
            xs \<noteq> [] \<and> ys \<noteq> [] \<and> mset (map kv_k xs) \<subseteq># mset (map kv_k ys)) \<and>
         (r_status (main [pa, pb] w) = Exit_status 0 \<longrightarrow>
            r_stdout (main [pa, pb] w) = map render (spec_diff xs ys))"
proof -
  note m = main_files[OF assms] diff_opt_spec[of "if xs = [] then None else Some xs"
      "if ys = [] then None else Some ys"]
  show ?thesis
  proof (cases "xs \<noteq> [] \<and> ys \<noteq> [] \<and> (\<forall>k. Only_first k \<notin> set (spec_diff xs ys))")
    case True
    then have "c_outcome [] (spec_diff xs ys) = Inr (map render (spec_diff xs ys))"
      by (simp add: c_outcome_Inr_iff)
    with True m show ?thesis by (simp add: spec_diff_no_first)
  next
    case False
    have "xs \<noteq> [] \<Longrightarrow> ys \<noteq> [] \<Longrightarrow> \<not> (\<forall>k. Only_first k \<notin> set (spec_diff xs ys)) \<Longrightarrow>
        \<exists>f pr. c_outcome [] (spec_diff xs ys) = Inl (f, pr)"
      using c_outcome_Inr_iff[of "[]" "spec_diff xs ys"] by (cases "c_outcome [] (spec_diff xs ys)") auto
    with False m show ?thesis by (auto simp: spec_diff_no_first)
  qed
qed

theorem main_ok_iff_witness:
  "r_status (main [''a.conf'', ''b.conf'']
     \<lparr>w_stdin = \<lparr>data = [], eof_flag = False, err_flag = False, rd_fail = None\<rparr>,
      w_files = (\<lambda>p. if p = ''a.conf'' then Inr \<lparr>data = ''x=1\<newline>y = 2 \<newline>'', eof_flag = False, err_flag = False, rd_fail = None\<rparr>
                     else Inr \<lparr>data = ''y=2\<newline>'', eof_flag = False, err_flag = False, rd_fail = None\<rparr>)\<rparr>)
   \<noteq> Exit_status 0"
proof -
  have l1: "load_spec ''x=1\<newline>y = 2 \<newline>'' None =
      Inr [\<lparr>kv_k = ''x'', kv_v = ''1''\<rparr>, \<lparr>kv_k = ''y'', kv_v = ''2''\<rparr>]" by code_simp
  have l2: "load_spec ''y=2\<newline>'' None = Inr [\<lparr>kv_k = ''y'', kv_v = ''2''\<rparr>]" by code_simp
  show ?thesis
    using main_ok_iff[where pa = "''a.conf''" and pb = "''b.conf''"] l1 l2 by simp
qed

text \<open>
  C6: \<open>diffkv - -\<close> reads the standard input twice; the second load meets the
  end-of-file indicator the first one set, returns NULL, and \<open>diff\<close> reads through it.
\<close>

theorem main_stdin_twice:
  assumes "\<not> eof_flag (w_stdin w)" "\<not> err_flag (w_stdin w)"
    and "load_spec (data (w_stdin w)) (rd_fail (w_stdin w)) = Inr xs"
  shows "main [''-'', ''-''] w =
           \<lparr>r_stdout = [], r_stderr = [], r_status = Undefined_behaviour Null_deref\<rparr>"
proof -
  let ?w1 = "w\<lparr>w_stdin := w_stdin w\<lparr>data := [], eof_flag := True\<rparr>\<rparr>"
  have l1: "load_arg ''-'' w = Inr (if xs = [] then None else Some xs, ?w1)"
    using assms by (simp add: load_arg_stdin)
  have l2: "load_arg ''-'' ?w1 = Inr (None, ?w1)"
    using assms(2) by (simp add: load_arg_stdin_eof)
  show ?thesis
    using main_loaded[OF l1 l2] diff_opt_spec[of "if xs = [] then None else Some xs" None]
    by (auto split: option.split)
qed

theorem main_stdin_twice_witness:
  "main [''-'', ''-'']
     \<lparr>w_stdin = \<lparr>data = ''k=v\<newline>'', eof_flag = False, err_flag = False, rd_fail = None\<rparr>,
      w_files = (\<lambda>p. Inl ''No such file or directory'')\<rparr> =
   \<lparr>r_stdout = [], r_stderr = [], r_status = Undefined_behaviour Null_deref\<rparr>"
proof -
  have l: "load_spec ''k=v\<newline>'' None = Inr [\<lparr>kv_k = ''k'', kv_v = ''v''\<rparr>]" by code_simp
  show ?thesis using main_stdin_twice l by simp
qed

end
